theory Spec2Isabelle
  imports Main
begin

section \<open>Channel\<close>

text \<open>
  The class \<open>Channel<T>\<close> of the repository: a ring buffer of fixed capacity, a closed
  flag and two FIFO queues of suspended callers. A suspended caller is a pending promise;
  the queue entry holds the promise's \<open>resolve\<close> function. The model names each such
  promise by a number (\<open>pid\<close>) chosen by the caller, and an operation returns, besides its
  own result and the new state, the list of promises of \<^emph>\<open>other\<close> callers it resolved, in
  the order of the \<open>resolve\<close> calls.
\<close>

type_synonym pid = nat

datatype chan_error = CapacityNegative | InvalidArrayLength | SendOnClosed

record 'a channel =
  buffer :: "'a option list"
  capacity :: nat
  head :: nat
  tail :: nat
  count :: nat
  closed :: bool
  sendWaiters :: "('a \<times> pid) list"
  receiveWaiters :: "pid list"

text \<open>
  Array cells hold \<open>T | undefined\<close>: \<open>None\<close> is \<open>undefined\<close>. Reading a JavaScript array
  out of range gives \<open>undefined\<close>, writing out of range extends the array with holes.
  The field \<open>#buffer\<close> is \<open>null\<close> for capacity 0; the model has the empty list there (the
  source reads and writes the buffer only behind \<open>count > 0\<close> or \<open>count < capacity\<close>).
\<close>

definition js_get :: "'a option list \<Rightarrow> nat \<Rightarrow> 'a option" where
  "js_get xs i = (if i < length xs then xs ! i else None)"

definition js_set :: "'a option list \<Rightarrow> nat \<Rightarrow> 'a option \<Rightarrow> 'a option list" where
  "js_set xs i v =
     (if i < length xs then xs[i := v] else xs @ replicate (i - length xs) None @ [v])"

text \<open>
  The constructor. \<open>new Array(capacity)\<close> itself throws a RangeError for a length of
  \<open>2^32\<close> or more, so such a channel is never built.
\<close>

definition newChannel :: "int \<Rightarrow> chan_error + 'a channel" where
  "newChannel c =
     (if c < 0 then Inl CapacityNegative
      else if 4294967295 < c then Inl InvalidArrayLength
      else Inr \<lparr> buffer = replicate (nat c) None, capacity = nat c, head = 0, tail = 0,
                 count = 0, closed = False, sendWaiters = [], receiveWaiters = [] \<rparr>)"

datatype 'a wake = ResolveSend pid | ResolveReceive pid "'a option" bool

datatype send_ret = SendThrows chan_error | SendReturns | SendSuspends

datatype 'a receive_ret = ReceiveReturns "'a option" bool | ReceiveSuspends

text \<open>
  \<open>send\<close>, first block: a waiting receiver takes the value directly.
\<close>

definition handOff :: "'a \<Rightarrow> 'a channel \<Rightarrow> ('a wake \<times> 'a channel) option" where
  "handOff v s =
     (case receiveWaiters s of
        [] \<Rightarrow> None
      | w # ws \<Rightarrow> Some (ResolveReceive w (Some v) True, s\<lparr> receiveWaiters := ws \<rparr>))"

text \<open>
  \<open>send\<close>, second block: write at \<open>tail\<close> when the buffer has room.
\<close>

definition writeTail :: "'a \<Rightarrow> 'a channel \<Rightarrow> 'a channel" where
  "writeTail v s =
     s\<lparr> buffer := js_set (buffer s) (tail s) (Some v),
        tail := (tail s + 1) mod capacity s,
        count := count s + 1 \<rparr>"

definition addToBuffer :: "'a \<Rightarrow> 'a channel \<Rightarrow> 'a channel option" where
  "addToBuffer v s =
     (if 0 < capacity s \<and> count s < capacity s then Some (writeTail v s) else None)"

text \<open>
  The source of \<open>send\<close> has each of the two blocks twice in a row; the model keeps the
  repetition.
\<close>

definition send :: "pid \<Rightarrow> 'a \<Rightarrow> 'a channel \<Rightarrow> send_ret \<times> 'a wake list \<times> 'a channel" where
  "send p v s =
     (if closed s then (SendThrows SendOnClosed, [], s)
      else case handOff v s of
        Some (w, s') \<Rightarrow> (SendReturns, [w], s')
      | None \<Rightarrow>
     (case handOff v s of
        Some (w, s') \<Rightarrow> (SendReturns, [w], s')
      | None \<Rightarrow>
     (case addToBuffer v s of
        Some s' \<Rightarrow> (SendReturns, [], s')
      | None \<Rightarrow>
     (case addToBuffer v s of
        Some s' \<Rightarrow> (SendReturns, [], s')
      | None \<Rightarrow> (SendSuspends, [], s\<lparr> sendWaiters := sendWaiters s @ [(v, p)] \<rparr>)))))"

text \<open>
  \<open>#processSendWaiters\<close>: while the buffer has room and senders wait, move the first
  waiting sender's value into the buffer and resolve that sender.
\<close>

function processSendWaiters :: "'a channel \<Rightarrow> 'a wake list \<times> 'a channel" where
  "processSendWaiters s =
     (if count s < capacity s \<and> 0 < length (sendWaiters s) then
        (case sendWaiters s of
           [] \<Rightarrow> ([], s)
         | (v, p) # rest \<Rightarrow>
             (case processSendWaiters (writeTail v (s\<lparr> sendWaiters := rest \<rparr>)) of
                (wk, s') \<Rightarrow> (ResolveSend p # wk, s')))
      else ([], s))"
  by pat_completeness auto
termination
  by (relation "measure (\<lambda>s. length (sendWaiters s))") (auto simp: writeTail_def)

declare processSendWaiters.simps [simp del]

text \<open>
  The first block of \<open>receive\<close> and of \<open>tryReceive\<close>: read at \<open>head\<close>, clear the cell,
  advance, then refill from the waiting senders.
\<close>

definition readHead :: "'a channel \<Rightarrow> 'a channel" where
  "readHead s =
     s\<lparr> buffer := js_set (buffer s) (head s) None,
        head := (head s + 1) mod capacity s,
        count := count s - 1 \<rparr>"

definition takeBuffered :: "'a channel \<Rightarrow> ('a option \<times> 'a wake list \<times> 'a channel) option" where
  "takeBuffered s =
     (if 0 < count s then
        (case processSendWaiters (readHead s) of
           (wk, s') \<Rightarrow> Some (js_get (buffer s) (head s), wk, s'))
      else None)"

text \<open>
  The second block of both: take the value of the first waiting sender and resolve it.
\<close>

definition takeFromSender :: "'a channel \<Rightarrow> ('a option \<times> 'a wake list \<times> 'a channel) option" where
  "takeFromSender s =
     (case sendWaiters s of
        [] \<Rightarrow> None
      | (v, p) # rest \<Rightarrow> Some (Some v, [ResolveSend p], s\<lparr> sendWaiters := rest \<rparr>))"

definition receive :: "pid \<Rightarrow> 'a channel \<Rightarrow> 'a receive_ret \<times> 'a wake list \<times> 'a channel" where
  "receive p s =
     (case takeBuffered s of
        Some (v, wk, s') \<Rightarrow> (ReceiveReturns v True, wk, s')
      | None \<Rightarrow>
     (case takeFromSender s of
        Some (v, wk, s') \<Rightarrow> (ReceiveReturns v True, wk, s')
      | None \<Rightarrow>
        if closed s then (ReceiveReturns None False, [], s)
        else if closed s then (ReceiveReturns None False, [], s)
        else (ReceiveSuspends, [], s\<lparr> receiveWaiters := receiveWaiters s @ [p] \<rparr>)))"

text \<open>
  \<open>close\<close>: the loop over the waiting senders has an empty body, then the queue is
  truncated; every waiting receiver is resolved with \<open>[undefined, false]\<close>.
\<close>

definition close :: "'a channel \<Rightarrow> 'a wake list \<times> 'a channel" where
  "close s =
     (if closed s then ([], s)
      else (map (\<lambda>w. ResolveReceive w None False) (receiveWaiters s),
            s\<lparr> closed := True, sendWaiters := [], receiveWaiters := [] \<rparr>))"

definition tryReceive :: "'a channel \<Rightarrow> ('a option \<times> bool) \<times> 'a wake list \<times> 'a channel" where
  "tryReceive s =
     (case takeBuffered s of
        Some (v, wk, s') \<Rightarrow> ((v, True), wk, s')
      | None \<Rightarrow>
     (case takeFromSender s of
        Some (v, wk, s') \<Rightarrow> ((v, True), wk, s')
      | None \<Rightarrow> ((None, False), [], s)))"

definition trySend :: "'a \<Rightarrow> 'a channel \<Rightarrow> bool \<times> 'a wake list \<times> 'a channel" where
  "trySend v s =
     (if closed s then (False, [], s)
      else case handOff v s of
        Some (w, s') \<Rightarrow> (True, [w], s')
      | None \<Rightarrow>
     (case addToBuffer v s of
        Some s' \<Rightarrow> (True, [], s')
      | None \<Rightarrow> (False, [], s)))"

definition hasData :: "'a channel \<Rightarrow> bool" where
  "hasData s = (0 < count s \<or> 0 < length (sendWaiters s))"

definition canSend :: "'a channel \<Rightarrow> bool" where
  "canSend s = (0 < length (receiveWaiters s) \<or> (0 < capacity s \<and> count s < capacity s))"

text \<open>
  Callers: one call of a method, and a sequence of calls made one after the other.
\<close>

datatype 'a chan_op = Send pid 'a | Receive pid | TrySend 'a | TryReceive | Close

datatype 'a chan_ret =
    SendRet send_ret
  | ReceiveRet "'a receive_ret"
  | TrySendRet bool
  | TryReceiveRet "'a option" bool
  | CloseRet

fun chan_step :: "'a chan_op \<Rightarrow> 'a channel \<Rightarrow> 'a chan_ret \<times> 'a wake list \<times> 'a channel" where
  "chan_step (Send p v) s = (case send p v s of (r, wk, s') \<Rightarrow> (SendRet r, wk, s'))"
| "chan_step (Receive p) s = (case receive p s of (r, wk, s') \<Rightarrow> (ReceiveRet r, wk, s'))"
| "chan_step (TrySend v) s = (case trySend v s of (b, wk, s') \<Rightarrow> (TrySendRet b, wk, s'))"
| "chan_step TryReceive s =
     (case tryReceive s of ((v, ok), wk, s') \<Rightarrow> (TryReceiveRet v ok, wk, s'))"
| "chan_step Close s = (case close s of (wk, s') \<Rightarrow> (CloseRet, wk, s'))"

definition chan_next :: "'a chan_op \<Rightarrow> 'a channel \<Rightarrow> 'a channel" where
  "chan_next op s = snd (snd (chan_step op s))"

fun chan_run :: "'a chan_op list \<Rightarrow> 'a channel \<Rightarrow> 'a channel" where
  "chan_run [] s = s"
| "chan_run (op # ops) s = chan_run ops (chan_next op s)"

text \<open>
  The values in the ring buffer, oldest first: \<open>count\<close> cells from \<open>head\<close> on.
\<close>

definition contents :: "'a channel \<Rightarrow> 'a option list" where
  "contents s = map (\<lambda>i. js_get (buffer s) ((head s + i) mod capacity s)) [0..<count s]"

definition ring_inv :: "'a channel \<Rightarrow> bool" where
  "ring_inv s \<longleftrightarrow>
     length (buffer s) = capacity s \<and> count s \<le> capacity s \<and>
     (0 < capacity s \<longrightarrow> head s < capacity s) \<and>
     tail s = (head s + count s) mod capacity s \<and>
     None \<notin> set (contents s)"

definition chan_inv :: "'a channel \<Rightarrow> bool" where
  "chan_inv s \<longleftrightarrow>
     ring_inv s \<and>
     (0 < count s \<longrightarrow> receiveWaiters s = []) \<and>
     (sendWaiters s \<noteq> [] \<longrightarrow> receiveWaiters s = [] \<and> count s = capacity s) \<and>
     (closed s \<longrightarrow> sendWaiters s = [] \<and> receiveWaiters s = [])"

text \<open>
  How many waiting senders \<open>#processSendWaiters\<close> can move into the buffer.
\<close>

definition room :: "'a channel \<Rightarrow> nat" where
  "room s = min (capacity s - count s) (length (sendWaiters s))"

text \<open>
  Callers again: receives and non-blocking sends in a row, and a run that keeps what each
  call returned and whom it resolved.
\<close>

fun receive_many :: "pid list \<Rightarrow> 'a channel \<Rightarrow> ('a receive_ret \<times> 'a wake list) list \<times> 'a channel" where
  "receive_many [] s = ([], s)"
| "receive_many (p # ps) s =
     (case receive p s of (r, wk, s') \<Rightarrow>
        (case receive_many ps s' of (rs, s'') \<Rightarrow> ((r, wk) # rs, s'')))"

fun trySend_many :: "'a list \<Rightarrow> 'a channel \<Rightarrow> (bool \<times> 'a wake list) list \<times> 'a channel" where
  "trySend_many [] s = ([], s)"
| "trySend_many (v # vs) s =
     (case trySend v s of (b, wk, s') \<Rightarrow>
        (case trySend_many vs s' of (bs, s'') \<Rightarrow> ((b, wk) # bs, s'')))"

fun chan_trace :: "'a chan_op list \<Rightarrow> 'a channel \<Rightarrow> ('a chan_ret \<times> 'a wake list) list \<times> 'a channel" where
  "chan_trace [] s = ([], s)"
| "chan_trace (op # ops) s =
     (case chan_step op s of (r, wk, s') \<Rightarrow>
        (case chan_trace ops s' of (rs, s'') \<Rightarrow> ((r, wk) # rs, s'')))"

definition isSending :: "'a chan_op \<Rightarrow> bool" where
  "isSending op = (case op of Send p v \<Rightarrow> True | TrySend v \<Rightarrow> True | _ \<Rightarrow> False)"

text \<open>
  The state invariant of a channel: the count stays within the capacity, values are never
  buffered while receivers wait, and a closed channel has no sender left in its queue.
\<close>

definition state_inv :: "'a channel \<Rightarrow> bool" where
  "state_inv s \<longleftrightarrow>
     count s \<le> capacity s \<and>
     \<not> (0 < count s \<and> receiveWaiters s \<noteq> []) \<and>
     (closed s \<longrightarrow> sendWaiters s = [])"

text \<open>
  The receivers that are blocked after a run of calls: a \<open>receive\<close> that suspended
  joins them, and a receiver leaves when some operation resolves its promise. The list
  is in the order in which the receives suspended.
\<close>

definition resolvedReceivers :: "'a wake list \<Rightarrow> pid list" where
  "resolvedReceivers wk =
     concat (map (\<lambda>w. case w of ResolveReceive q v ok \<Rightarrow> [q] | ResolveSend q \<Rightarrow> []) wk)"

definition suspendedReceiver :: "'a chan_op \<Rightarrow> 'a chan_ret \<Rightarrow> pid list" where
  "suspendedReceiver op r =
     (case op of
        Receive p \<Rightarrow> (case r of ReceiveRet ReceiveSuspends \<Rightarrow> [p] | _ \<Rightarrow> [])
      | _ \<Rightarrow> [])"

definition stillBlocked :: "pid list \<Rightarrow> 'a chan_op \<Rightarrow> 'a chan_ret \<Rightarrow> 'a wake list \<Rightarrow> pid list" where
  "stillBlocked blocked op r wk =
     foldl (\<lambda>b q. remove1 q b) blocked (resolvedReceivers wk) @ suspendedReceiver op r"

fun blockedReceivers :: "pid list \<Rightarrow> 'a chan_op list \<Rightarrow> 'a channel \<Rightarrow> pid list \<times> 'a channel" where
  "blockedReceivers blocked [] s = (blocked, s)"
| "blockedReceivers blocked (op # ops) s =
     (case chan_step op s of
        (r, wk, s') \<Rightarrow> blockedReceivers (stillBlocked blocked op r wk) ops s')"

section \<open>Select\<close>

text \<open>
  A case names its channel (several cases may name the same one, so the channels live in
  a store) and its action. Actions are callbacks of the caller; the model names them by a
  number and reports which one was run.
\<close>

type_synonym cid = nat
type_synonym aid = nat

datatype 'a select_case = ReceiveCase cid aid | SendCase cid 'a aid | DefaultCase aid

datatype select_error = NoCases | MultipleDefaultCases

text \<open>
  The classification loop: one pass over the cases, throwing at the second default.
\<close>

fun classify ::
  "'a select_case list \<Rightarrow> (cid \<times> aid) list \<Rightarrow> (cid \<times> 'a \<times> aid) list \<Rightarrow> aid option \<Rightarrow>
   select_error + ((cid \<times> aid) list \<times> (cid \<times> 'a \<times> aid) list \<times> aid option)" where
  "classify [] receiveCases sendCases defaultCase = Inr (receiveCases, sendCases, defaultCase)"
| "classify (DefaultCase a # cases) receiveCases sendCases defaultCase =
     (case defaultCase of
        Some d \<Rightarrow> Inl MultipleDefaultCases
      | None \<Rightarrow> classify cases receiveCases sendCases (Some a))"
| "classify (SendCase c v a # cases) receiveCases sendCases defaultCase =
     classify cases receiveCases (sendCases @ [(c, v, a)]) defaultCase"
| "classify (ReceiveCase c a # cases) receiveCases sendCases defaultCase =
     classify cases (receiveCases @ [(c, a)]) sendCases defaultCase"

definition hasReadyOperation ::
  "(cid \<times> aid) list \<Rightarrow> (cid \<times> 'a \<times> aid) list \<Rightarrow> (cid \<Rightarrow> 'a channel) \<Rightarrow> bool" where
  "hasReadyOperation receiveCases sendCases st =
     (list_ex (\<lambda>(c, a). hasData (st c)) receiveCases \<or>
      list_ex (\<lambda>(c, v, a). canSend (st c)) sendCases)"

text \<open>
  The slow path starts one \<open>receive\<close> per receive case, then one \<open>send\<close> per send case,
  each on the channel as the calls before it left it. The promise of the \<open>n\<close>-th
  operation started is named \<open>p + n\<close>. Which of the promises wins \<open>Promise.race\<close> is the
  scheduler's choice; the model stops at the list of operations started, each with what
  its call returned at once.
\<close>

datatype 'a started = StartedReceive aid "'a receive_ret" | StartedSend aid send_ret

fun startReceives ::
  "pid \<Rightarrow> (cid \<times> aid) list \<Rightarrow> (cid \<Rightarrow> 'a channel) \<Rightarrow>
   'a started list \<times> (cid \<times> 'a wake) list \<times> (cid \<Rightarrow> 'a channel)" where
  "startReceives p [] st = ([], [], st)"
| "startReceives p ((c, a) # cases) st =
     (case receive p (st c) of (r, wk, s') \<Rightarrow>
        (case startReceives (p + 1) cases (st(c := s')) of (xs, wks, st') \<Rightarrow>
           (StartedReceive a r # xs, map (Pair c) wk @ wks, st')))"

fun startSends ::
  "pid \<Rightarrow> (cid \<times> 'a \<times> aid) list \<Rightarrow> (cid \<Rightarrow> 'a channel) \<Rightarrow>
   'a started list \<times> (cid \<times> 'a wake) list \<times> (cid \<Rightarrow> 'a channel)" where
  "startSends p [] st = ([], [], st)"
| "startSends p ((c, v, a) # cases) st =
     (case send p v (st c) of (r, wk, s') \<Rightarrow>
        (case startSends (p + 1) cases (st(c := s')) of (xs, wks, st') \<Rightarrow>
           (StartedSend a r # xs, map (Pair c) wk @ wks, st')))"

datatype 'a select_result =
    SelectThrows select_error
  | RanDefault aid
  | Racing "'a started list"

definition select ::
  "pid \<Rightarrow> 'a select_case list \<Rightarrow> (cid \<Rightarrow> 'a channel) \<Rightarrow>
   'a select_result \<times> (cid \<times> 'a wake) list \<times> (cid \<Rightarrow> 'a channel)" where
  "select p cases st =
     (if length cases = 0 then (SelectThrows NoCases, [], st)
      else case classify cases [] [] None of
        Inl e \<Rightarrow> (SelectThrows e, [], st)
      | Inr (receiveCases, sendCases, defaultCase) \<Rightarrow>
          (case (case defaultCase of
                   Some d \<Rightarrow>
                     if \<not> hasReadyOperation receiveCases sendCases st then Some d else None
                 | None \<Rightarrow> None) of
             Some d \<Rightarrow> (RanDefault d, [], st)
           | None \<Rightarrow>
               (case startReceives p receiveCases st of (xs, wks, st1) \<Rightarrow>
                  (case startSends (p + length receiveCases) sendCases st1 of
                     (ys, wks', st2) \<Rightarrow> (Racing (xs @ ys), wks @ wks', st2)))))"

text \<open>
  The receive cases, the send cases and the default cases of a case list, in order.
\<close>

fun receiveCasesOf :: "'a select_case list \<Rightarrow> (cid \<times> aid) list" where
  "receiveCasesOf [] = []"
| "receiveCasesOf (ReceiveCase c a # cases) = (c, a) # receiveCasesOf cases"
| "receiveCasesOf (x # cases) = receiveCasesOf cases"

fun sendCasesOf :: "'a select_case list \<Rightarrow> (cid \<times> 'a \<times> aid) list" where
  "sendCasesOf [] = []"
| "sendCasesOf (SendCase c v a # cases) = (c, v, a) # sendCasesOf cases"
| "sendCasesOf (x # cases) = sendCasesOf cases"

fun defaultsOf :: "'a select_case list \<Rightarrow> aid list" where
  "defaultsOf [] = []"
| "defaultsOf (DefaultCase a # cases) = a # defaultsOf cases"
| "defaultsOf (x # cases) = defaultsOf cases"

section \<open>Context\<close>

text \<open>
  \<open>DefaultContext\<close>: the lazily created done promise, its resolver and the error. The
  promise is either pending or resolved (it never rejects); the resolver is the promise's
  own \<open>resolve\<close> or the empty function \<open>() => {}\<close>.
\<close>

datatype js_error = ContextCancelledError | ContextTimeoutError | OtherError string

datatype promise_state = Pending | Resolved

datatype resolver = ResolvePromise | EmptyFunction

record ctx =
  donePromise :: "promise_state option"
  resolve :: "resolver option"
  err :: "js_error option"

text \<open>
  \<open>cancel\<close> tells a call without argument from a call with an explicit \<open>undefined\<close>
  (\<open>arguments.length\<close>).
\<close>

datatype cancel_arg = NoArgument | Argument "js_error option"

definition callResolve :: "resolver \<Rightarrow> ctx \<Rightarrow> ctx" where
  "callResolve r c =
     (case r of ResolvePromise \<Rightarrow> c\<lparr> donePromise := Some Resolved \<rparr> | EmptyFunction \<Rightarrow> c)"

definition cancel :: "cancel_arg \<Rightarrow> ctx \<Rightarrow> ctx" where
  "cancel a c =
     (if err c \<noteq> None then c
      else let c1 = (case a of
                       NoArgument \<Rightarrow> c\<lparr> err := Some ContextCancelledError \<rparr>
                     | Argument e \<Rightarrow> c\<lparr> err := e \<rparr>)
           in case resolve c1 of
                Some r \<Rightarrow> callResolve r c1
              | None \<Rightarrow> c1\<lparr> donePromise := Some Resolved, resolve := Some EmptyFunction \<rparr>)"

text \<open>
  \<open>done()\<close> returns the promise (here: its state at the return) and may create it.
\<close>

definition ctx_done :: "ctx \<Rightarrow> promise_state \<times> ctx" where
  "ctx_done c =
     (case donePromise c of
        Some pr \<Rightarrow> (pr, c)
      | None \<Rightarrow>
          if err c \<noteq> None
          then (Resolved, c\<lparr> donePromise := Some Resolved, resolve := Some EmptyFunction \<rparr>)
          else (Pending, c\<lparr> donePromise := Some Pending, resolve := Some ResolvePromise \<rparr>))"

text \<open>
  What a derivation leaves behind for later: callbacks registered on promises, listeners
  and timers. None of them runs before the derivation returns.
\<close>

datatype registration =
    ThenParentDone
  | ThenDone
  | FinallyDone
  | ThenPromise
  | AbortListener
  | Timer int

record derived =
  child :: ctx
  parent_after :: "ctx option"
  registered :: "registration list"

definition emptyContext :: ctx where
  "emptyContext = \<lparr> donePromise = None, resolve = None, err = None \<rparr>"

text \<open>
  The constructor of \<open>DefaultContext\<close>. The parent is read with \<open>err()\<close>; only when that
  is \<open>undefined\<close> is \<open>parent.done()\<close> called and a callback registered on it.
\<close>

definition DefaultContext :: "ctx option \<Rightarrow> derived" where
  "DefaultContext parent =
     (case parent of
        None \<Rightarrow> \<lparr> child = emptyContext, parent_after = None, registered = [] \<rparr>
      | Some p \<Rightarrow>
          (case err p of
             Some parentErr \<Rightarrow>
               \<lparr> child = cancel (Argument (Some parentErr)) emptyContext,
                 parent_after = Some p, registered = [] \<rparr>
           | None \<Rightarrow>
               \<lparr> child = emptyContext, parent_after = Some (snd (ctx_done p)),
                 registered = [ThenParentDone] \<rparr>))"

text \<open>
  The callback registered on the parent's done promise.
\<close>

definition onParentDone :: "ctx \<Rightarrow> ctx \<Rightarrow> ctx" where
  "onParentDone parent c = cancel (Argument (err parent)) c"

definition withCancel :: "ctx \<Rightarrow> derived" where
  "withCancel parent = DefaultContext (Some parent)"

definition cancelFunc :: "ctx \<Rightarrow> ctx" where
  "cancelFunc c = cancel (Argument (Some ContextCancelledError)) c"

definition withCancelCause :: "ctx \<Rightarrow> derived" where
  "withCancelCause parent = DefaultContext (Some parent)"

definition cancelCauseFunc :: "js_error option \<Rightarrow> ctx \<Rightarrow> ctx" where
  "cancelCauseFunc e c = cancel (Argument e) c"

definition withTimeout :: "ctx \<Rightarrow> int \<Rightarrow> derived" where
  "withTimeout parent timeoutMs =
     (let d = DefaultContext (Some parent)
      in d\<lparr> child := snd (ctx_done (child d)),
            registered := registered d @ [Timer timeoutMs, FinallyDone] \<rparr>)"

definition onTimeout :: "ctx \<Rightarrow> ctx" where
  "onTimeout c = cancel (Argument (Some ContextTimeoutError)) c"

text \<open>
  \<open>watchPromise\<close>: a rejection reason that is not an \<open>Error\<close> is wrapped as
  \<open>new Error(String(reason))\<close>.
\<close>

datatype reason = ErrorReason js_error | NonErrorReason string

definition watchPromise :: "ctx \<Rightarrow> derived" where
  "watchPromise parent =
     (let d = DefaultContext (Some parent)
      in d\<lparr> registered := registered d @ [ThenPromise] \<rparr>)"

definition onFulfilled :: "ctx \<Rightarrow> ctx" where
  "onFulfilled c = cancel (Argument None) c"

definition onRejected :: "reason \<Rightarrow> ctx \<Rightarrow> ctx" where
  "onRejected r c =
     (let error = (case r of ErrorReason e \<Rightarrow> e | NonErrorReason str \<Rightarrow> OtherError str)
      in cancel (Argument (Some error)) c)"

text \<open>
  \<open>watchSignal\<close>: an \<open>AbortSignal\<close> is aborted or not, and has a reason.
\<close>

record abort_signal =
  aborted :: bool
  abort_reason :: "reason option"

definition onAbort :: "abort_signal \<Rightarrow> ctx \<Rightarrow> ctx" where
  "onAbort signal c =
     cancel (Argument (Some (case abort_reason signal of
                               Some (ErrorReason e) \<Rightarrow> e
                             | _ \<Rightarrow> ContextCancelledError))) c"

definition watchSignal :: "ctx \<Rightarrow> abort_signal \<Rightarrow> derived" where
  "watchSignal parent signal =
     (let d = DefaultContext (Some parent)
      in if aborted signal then d\<lparr> child := onAbort signal (child d) \<rparr>
         else d\<lparr> child := snd (ctx_done (child d)),
                 registered := registered d @ [AbortListener, FinallyDone] \<rparr>)"

text \<open>
  \<open>withAbort\<close>: the controller is new, so its signal is not aborted.
\<close>

definition withAbort :: "ctx \<Rightarrow> derived" where
  "withAbort parent =
     (let d = DefaultContext (Some parent);
          signal = \<lparr> aborted = False, abort_reason = None \<rparr>;
          d1 = (if aborted signal then d\<lparr> child := onAbort signal (child d) \<rparr>
                else d\<lparr> child := snd (ctx_done (child d)),
                        registered := registered d @ [AbortListener, FinallyDone] \<rparr>)
      in d1\<lparr> child := snd (ctx_done (child d1)),
             registered := registered d1 @ [ThenDone] \<rparr>)"

text \<open>
  A context is Done once its completion signal is settled: \<open>cancel\<close> has run on it.
  \<open>cancel\<close> always leaves a resolved done promise behind, and nothing else resolves one.
\<close>

definition isDone :: "ctx \<Rightarrow> bool" where
  "isDone c = (donePromise c = Some Resolved)"

fun cancels :: "cancel_arg list \<Rightarrow> ctx \<Rightarrow> ctx" where
  "cancels [] c = c"
| "cancels (a # as) c = cancels as (cancel a c)"

text \<open>
  The background context is a \<open>DefaultContext\<close> built without parent.
\<close>

definition background :: ctx where
  "background = child (DefaultContext None)"

text \<open>
  What holds of every context built by the constructor and changed by \<open>done\<close> and
  \<open>cancel\<close> only: the resolver and the promise are created together, and an error is
  only ever stored by \<open>cancel\<close>, which leaves the promise resolved.
\<close>

definition ctx_wf :: "ctx \<Rightarrow> bool" where
  "ctx_wf c =
     ((err c \<noteq> None \<longrightarrow> donePromise c = Some Resolved) \<and>
      (case resolve c of
         None \<Rightarrow> donePromise c = None
       | Some ResolvePromise \<Rightarrow> donePromise c \<noteq> None
       | Some EmptyFunction \<Rightarrow> donePromise c = Some Resolved))"

section \<open>Once\<close>


datatype 'a once_promise = Awaiting "'a option" | Fulfilled 'a | Rejected js_error

type_synonym ref = nat

record once =
  state :: nat
  promise :: "ref option"
















text \<open>
  A \<open>Once\<close> that has been started from an empty heap: the field refers to the one
  promise there is, still awaited in state 1 and settled in state 2. And how a promise may
  change: an awaited one settles, with the value awaited if that is known; a settled one
  stays.
\<close>

definition started :: "once \<Rightarrow> 'a once_promise list \<Rightarrow> bool" where
  "started s h =
     (promise s = Some 0 \<and> length h = 1 \<and>
      (case h ! 0 of Awaiting a \<Rightarrow> state s = 1 | _ \<Rightarrow> state s = 2))"

definition follows :: "'a once_promise \<Rightarrow> 'a once_promise \<Rightarrow> bool" where
  "follows pr pr' =
     (case pr of
        Awaiting (Some v) \<Rightarrow> pr' = pr \<or> pr' = Fulfilled v
      | Awaiting None \<Rightarrow> (case pr' of Awaiting (Some v) \<Rightarrow> False | _ \<Rightarrow> True)
      | _ \<Rightarrow> pr' = pr)"

section \<open>The ring buffer\<close>

lemma mod_ne: "i < c \<Longrightarrow> c < (n::nat) \<Longrightarrow> (h + i) mod n \<noteq> (h + c) mod n"
proof
  assume a: "i < c" "c < n" and e: "(h + i) mod n = (h + c) mod n"
  have "(h + c) mod n = (h + i) mod n \<longleftrightarrow> n dvd (h + c) - (h + i)"
    using a by (intro mod_eq_dvd_iff_nat) simp
  with e have "n dvd c - i" by simp
  moreover have "0 < c - i" "c - i < n" using a by auto
  ultimately show False by (simp add: nat_dvd_not_less)
qed

lemma contents_writeTail:
  assumes "ring_inv s" "count s < capacity s"
  shows "contents (writeTail v s) = contents s @ [Some v]"
proof -
  have len: "length (buffer s) = capacity s" and t: "tail s = (head s + count s) mod capacity s"
    using assms by (auto simp: ring_inv_def)
  have cpos: "0 < capacity s" using assms by simp
  have tl: "tail s < length (buffer s)" using len t cpos by simp
  have "js_get ((buffer s)[tail s := Some v]) ((head s + i) mod capacity s)
        = js_get (buffer s) ((head s + i) mod capacity s)" if "i < count s" for i
  proof -
    have "(head s + i) mod capacity s \<noteq> tail s"
      unfolding t using that assms(2) by (rule mod_ne)
    then show ?thesis by (simp add: js_get_def)
  qed
  moreover have "js_get ((buffer s)[tail s := Some v]) ((head s + count s) mod capacity s) = Some v"
    using t tl len by (simp add: js_get_def)
  ultimately show ?thesis
    using tl by (simp add: contents_def writeTail_def js_set_def)
qed

lemma ring_inv_writeTail:
  assumes "ring_inv s" "count s < capacity s"
  shows "ring_inv (writeTail v s)"
proof -
  have c: "contents (writeTail v s) = contents s @ [Some v]"
    using assms by (rule contents_writeTail)
  have "None \<notin> set (contents (writeTail v s))"
    using assms(1) unfolding c by (simp add: ring_inv_def)
  moreover have "length (buffer (writeTail v s)) = capacity (writeTail v s)"
    using assms by (simp add: ring_inv_def writeTail_def js_set_def)
  moreover have "tail (writeTail v s) = (head (writeTail v s) + count (writeTail v s)) mod capacity (writeTail v s)"
    using assms by (simp add: ring_inv_def writeTail_def mod_Suc_eq)
  ultimately show ?thesis
    using assms by (simp add: ring_inv_def writeTail_def)
qed

lemma contents_readHead:
  assumes "ring_inv s" "0 < count s"
  shows "contents s = js_get (buffer s) (head s) # contents (readHead s)"
proof -
  have len: "length (buffer s) = capacity s" and h: "head s < capacity s" and le: "count s \<le> capacity s"
    using assms by (auto simp: ring_inv_def)
  have "\<And>i. i < count s - 1 \<Longrightarrow>
      js_get ((buffer s)[head s := None]) (((head s + 1) mod capacity s + i) mod capacity s)
      = js_get (buffer s) ((head s + Suc i) mod capacity s)"
  proof -
    fix i assume i: "i < count s - 1"
    have e: "((head s + 1) mod capacity s + i) mod capacity s = (head s + Suc i) mod capacity s"
      by (simp add: mod_add_left_eq)
    have "(head s + 0) mod capacity s \<noteq> (head s + Suc i) mod capacity s"
      using i le by (intro mod_ne) auto
    then have "head s \<noteq> (head s + Suc i) mod capacity s" using h by simp
    then show "js_get ((buffer s)[head s := None]) (((head s + 1) mod capacity s + i) mod capacity s)
      = js_get (buffer s) ((head s + Suc i) mod capacity s)"
      unfolding e using len by (simp add: js_get_def)
  qed
  then have "contents (readHead s) = map (\<lambda>i. js_get (buffer s) ((head s + Suc i) mod capacity s)) [0..<count s - 1]"
    using h len by (simp add: contents_def readHead_def js_set_def)
  moreover have "contents s = js_get (buffer s) (head s) # map (\<lambda>i. js_get (buffer s) ((head s + Suc i) mod capacity s)) [0..<count s - 1]"
  proof -
    obtain k where k: "count s = Suc k" using assms(2) by (cases "count s") auto
    show ?thesis using h by (simp add: contents_def k upt_conv_Cons map_Suc_upt[symmetric] del: upt_Suc)
  qed
  ultimately show ?thesis by simp
qed

lemma ring_inv_readHead:
  assumes "ring_inv s" "0 < count s"
  shows "ring_inv (readHead s)"
proof -
  have c: "contents s = js_get (buffer s) (head s) # contents (readHead s)"
    using assms by (rule contents_readHead)
  have "None \<notin> set (contents (readHead s))"
    using assms(1) c by (auto simp: ring_inv_def)
  moreover have "length (buffer (readHead s)) = capacity (readHead s)"
    using assms by (auto simp: ring_inv_def readHead_def js_set_def)
  moreover have "tail (readHead s) = (head (readHead s) + count (readHead s)) mod capacity (readHead s)"
  proof -
    obtain k where k: "count s = Suc k" using assms(2) by (cases "count s") auto
    show ?thesis using assms(1) by (simp add: ring_inv_def readHead_def k mod_add_left_eq)
  qed
  ultimately show ?thesis
    using assms by (auto simp: ring_inv_def readHead_def)
qed

lemma contents_sendWaiters_update [simp]:
  "contents (s\<lparr> sendWaiters := x \<rparr>) = contents s"
  by (simp add: contents_def)

lemma contents_receiveWaiters_update [simp]:
  "contents (s\<lparr> receiveWaiters := x \<rparr>) = contents s"
  by (simp add: contents_def)

lemma contents_closed_update [simp]:
  "contents (s\<lparr> closed := x \<rparr>) = contents s"
  by (simp add: contents_def)

lemma ring_inv_sendWaiters_update [simp]:
  "ring_inv (s\<lparr> sendWaiters := x \<rparr>) = ring_inv s"
  by (simp add: ring_inv_def)

lemma ring_inv_receiveWaiters_update [simp]:
  "ring_inv (s\<lparr> receiveWaiters := x \<rparr>) = ring_inv s"
  by (simp add: ring_inv_def)

lemma ring_inv_closed_update [simp]:
  "ring_inv (s\<lparr> closed := x \<rparr>) = ring_inv s"
  by (simp add: ring_inv_def)

lemma writeTail_fields [simp]:
  "capacity (writeTail v s) = capacity s"
  "count (writeTail v s) = Suc (count s)"
  "closed (writeTail v s) = closed s"
  "sendWaiters (writeTail v s) = sendWaiters s"
  "receiveWaiters (writeTail v s) = receiveWaiters s"
  by (simp_all add: writeTail_def)

lemma readHead_fields [simp]:
  "capacity (readHead s) = capacity s"
  "count (readHead s) = count s - 1"
  "closed (readHead s) = closed s"
  "sendWaiters (readHead s) = sendWaiters s"
  "receiveWaiters (readHead s) = receiveWaiters s"
  by (simp_all add: readHead_def)

lemma processSendWaiters_spec:
  "ring_inv s \<Longrightarrow>
   (case processSendWaiters s of (wk, s') \<Rightarrow>
      wk = map (\<lambda>(v, p). ResolveSend p) (take (room s) (sendWaiters s)) \<and>
      ring_inv s' \<and>
      contents s' = contents s @ map (\<lambda>(v, p). Some v) (take (room s) (sendWaiters s)) \<and>
      sendWaiters s' = drop (room s) (sendWaiters s) \<and>
      count s' = count s + room s \<and>
      capacity s' = capacity s \<and> closed s' = closed s \<and>
      receiveWaiters s' = receiveWaiters s)"
proof (induction s rule: processSendWaiters.induct)
  case (1 s)
  show ?case
  proof (cases "count s < capacity s \<and> 0 < length (sendWaiters s)")
    case False
    then have "room s = 0" by (auto simp: room_def)
    with False "1.prems" show ?thesis
      by (subst processSendWaiters.simps) simp
  next
    case True
    then obtain v p rest where sw: "sendWaiters s = (v, p) # rest"
      by (cases "sendWaiters s") auto
    let ?s1 = "writeTail v (s\<lparr> sendWaiters := rest \<rparr>)"
    have r1: "ring_inv ?s1"
      using "1.prems" True by (intro ring_inv_writeTail) simp_all
    have c1: "contents ?s1 = contents s @ [Some v]"
      using "1.prems" True by (subst contents_writeTail) simp_all
    have room: "room s = Suc (room ?s1)"
      using True sw by (simp add: room_def)
    obtain wk s' where ps: "processSendWaiters ?s1 = (wk, s')"
      by (cases "processSendWaiters ?s1")
    have ih: "wk = map (\<lambda>(v, p). ResolveSend p) (take (room ?s1) rest) \<and>
      ring_inv s' \<and>
      contents s' = contents ?s1 @ map (\<lambda>(v, p). Some v) (take (room ?s1) rest) \<and>
      sendWaiters s' = drop (room ?s1) rest \<and>
      count s' = count ?s1 + room ?s1 \<and>
      capacity s' = capacity s \<and> closed s' = closed s \<and>
      receiveWaiters s' = receiveWaiters s"
      using "1.IH"[OF True sw refl r1] ps by simp
    have "processSendWaiters s = (ResolveSend p # wk, s')"
      using True sw ps by (subst processSendWaiters.simps) simp
    then show ?thesis
      using ih c1 sw room by simp
  qed
qed

lemma takeBuffered_None: "count s = 0 \<Longrightarrow> takeBuffered s = None"
  by (simp add: takeBuffered_def)

lemma takeBuffered_spec:
  assumes "chan_inv s" "0 < count s"
  shows "\<exists>x wk s'. takeBuffered s = Some (Some x, wk, s') \<and>
      contents s = Some x # contents (readHead s) \<and>
      wk = map (\<lambda>(v, p). ResolveSend p) (take 1 (sendWaiters s)) \<and>
      contents s' = contents (readHead s) @ map (\<lambda>(v, p). Some v) (take 1 (sendWaiters s)) \<and>
      sendWaiters s' = drop 1 (sendWaiters s) \<and>
      receiveWaiters s' = [] \<and> capacity s' = capacity s \<and> closed s' = closed s \<and>
      count s' = count s - 1 + length (take 1 (sendWaiters s)) \<and>
      chan_inv s'"
proof -
  have r: "ring_inv s" and rw: "receiveWaiters s = []"
    and sw: "sendWaiters s \<noteq> [] \<Longrightarrow> count s = capacity s"
    and cl: "closed s \<Longrightarrow> sendWaiters s = []"
    using assms by (auto simp: chan_inv_def)
  have c: "contents s = js_get (buffer s) (head s) # contents (readHead s)"
    using r assms(2) by (rule contents_readHead)
  have "None \<notin> set (contents s)" using r by (simp add: ring_inv_def)
  with c obtain x where x: "js_get (buffer s) (head s) = Some x"
    by (cases "js_get (buffer s) (head s)") auto
  have r1: "ring_inv (readHead s)"
    using r assms(2) by (rule ring_inv_readHead)
  have le: "count s \<le> capacity s" using r by (simp add: ring_inv_def)
  have room: "room (readHead s) = length (take 1 (sendWaiters s))"
  proof (cases "sendWaiters s")
    case Nil
    then show ?thesis by (simp add: room_def)
  next
    case (Cons a list)
    then have "count s = capacity s" using sw by simp
    then show ?thesis using Cons assms(2) by (simp add: room_def)
  qed
  then have room': "room (readHead s) \<le> 1" by simp
  obtain wk s' where ps: "processSendWaiters (readHead s) = (wk, s')"
    by (cases "processSendWaiters (readHead s)")
  have spec: "wk = map (\<lambda>(v, p). ResolveSend p) (take (room (readHead s)) (sendWaiters s)) \<and>
      ring_inv s' \<and>
      contents s' = contents (readHead s) @ map (\<lambda>(v, p). Some v) (take (room (readHead s)) (sendWaiters s)) \<and>
      sendWaiters s' = drop (room (readHead s)) (sendWaiters s) \<and>
      count s' = count (readHead s) + room (readHead s) \<and>
      capacity s' = capacity s \<and> closed s' = closed s \<and>
      receiveWaiters s' = receiveWaiters s"
    using processSendWaiters_spec[OF r1] ps by simp
  have t1: "take (room (readHead s)) (sendWaiters s) = take 1 (sendWaiters s)"
    and d1: "drop (room (readHead s)) (sendWaiters s) = drop 1 (sendWaiters s)"
    using room by (cases "sendWaiters s"; simp)+
  have inv': "chan_inv s'"
    unfolding chan_inv_def
  proof (intro conjI impI)
    show "ring_inv s'" using spec by simp
    show "receiveWaiters s' = []" using spec rw by simp
    show "receiveWaiters s' = []" using spec rw by simp
    show "count s' = capacity s'" if "sendWaiters s' \<noteq> []"
    proof -
      from that have ne: "sendWaiters s \<noteq> []" using spec by auto
      then have "count s = capacity s" by (rule sw)
      moreover have "room (readHead s) = 1" using room ne by (cases "sendWaiters s") auto
      ultimately show ?thesis using spec assms(2) by simp
    qed
    show "sendWaiters s' = []" if "closed s'"
      using that spec cl by simp
    show "receiveWaiters s' = []" using spec rw by simp
  qed
  have "takeBuffered s = Some (Some x, wk, s')"
    using assms(2) ps x by (simp add: takeBuffered_def)
  then show ?thesis
    using c x spec t1 d1 rw inv' room by simp
qed

lemma chan_inv_newChannel: "newChannel c = Inr s \<Longrightarrow> chan_inv s"
  by (auto simp: newChannel_def chan_inv_def ring_inv_def contents_def split: if_splits)

lemma chan_inv_send:
  assumes "chan_inv s"
  shows "chan_inv (snd (snd (send p v s)))"
proof (cases "closed s")
  case True
  then show ?thesis using assms by (simp add: send_def)
next
  case False
  show ?thesis
  proof (cases "receiveWaiters s")
    case (Cons w ws)
    then have "count s = 0" "sendWaiters s = []"
      using assms by (auto simp: chan_inv_def)
    then show ?thesis
      using assms False Cons by (simp add: send_def handOff_def chan_inv_def)
  next
    case Nil
    show ?thesis
    proof (cases "count s < capacity s")
      case True
      have r: "ring_inv s" using assms by (simp add: chan_inv_def)
      have "sendWaiters s = []" using assms True by (auto simp: chan_inv_def)
      moreover have "ring_inv (writeTail v s)" using r True by (rule ring_inv_writeTail)
      ultimately show ?thesis
        using False Nil True by (simp add: send_def handOff_def addToBuffer_def chan_inv_def)
    next
      case nospace: False
      then have "count s = capacity s" using assms by (simp add: chan_inv_def ring_inv_def)
      then show ?thesis
        using assms False Nil by (simp add: send_def handOff_def addToBuffer_def chan_inv_def)
    qed
  qed
qed

lemma chan_inv_trySend:
  assumes "chan_inv s"
  shows "chan_inv (snd (snd (trySend v s)))"
proof (cases "closed s")
  case True
  then show ?thesis using assms by (simp add: trySend_def)
next
  case False
  show ?thesis
  proof (cases "receiveWaiters s")
    case (Cons w ws)
    then have "count s = 0" "sendWaiters s = []"
      using assms by (auto simp: chan_inv_def)
    then show ?thesis
      using assms False Cons by (simp add: trySend_def handOff_def chan_inv_def)
  next
    case Nil
    show ?thesis
    proof (cases "count s < capacity s")
      case True
      have r: "ring_inv s" using assms by (simp add: chan_inv_def)
      have "sendWaiters s = []" using assms True by (auto simp: chan_inv_def)
      moreover have "ring_inv (writeTail v s)" using r True by (rule ring_inv_writeTail)
      ultimately show ?thesis
        using False Nil True by (simp add: trySend_def handOff_def addToBuffer_def chan_inv_def)
    next
      case nospace: False
      then show ?thesis
        using assms False Nil by (simp add: trySend_def handOff_def addToBuffer_def)
    qed
  qed
qed

lemma chan_inv_takeFromSender:
  assumes "chan_inv s" "count s = 0" "takeFromSender s = Some (x, wk, s')"
  shows "chan_inv s'"
proof -
  obtain v p rest where sw: "sendWaiters s = (v, p) # rest" and s': "s' = s\<lparr> sendWaiters := rest \<rparr>"
    using assms(3) by (auto simp: takeFromSender_def split: list.splits)
  have "capacity s = 0" "\<not> closed s" "receiveWaiters s = []" "ring_inv s"
    using assms(1,2) sw by (auto simp: chan_inv_def)
  then show ?thesis
    using assms(2) by (simp add: s' chan_inv_def)
qed

lemma chan_inv_receive:
  assumes "chan_inv s"
  shows "chan_inv (snd (snd (receive p s)))"
proof (cases "0 < count s")
  case True
  from takeBuffered_spec[OF assms True] obtain x wk s' where
    "takeBuffered s = Some (Some x, wk, s')" "chan_inv s'" by blast
  then show ?thesis by (simp add: receive_def)
next
  case False
  then have tb: "takeBuffered s = None" by (simp add: takeBuffered_None)
  show ?thesis
  proof (cases "takeFromSender s")
    case (Some a)
    then obtain x wk s' where a: "takeFromSender s = Some (x, wk, s')" by (cases a) auto
    then have "chan_inv s'" using assms False chan_inv_takeFromSender by fastforce
    then show ?thesis using tb a by (simp add: receive_def)
  next
    case None
    then have "sendWaiters s = []" by (auto simp: takeFromSender_def split: list.splits)
    then show ?thesis
      using assms tb None False by (auto simp: receive_def chan_inv_def)
  qed
qed

lemma chan_inv_tryReceive:
  assumes "chan_inv s"
  shows "chan_inv (snd (snd (tryReceive s)))"
proof (cases "0 < count s")
  case True
  from takeBuffered_spec[OF assms True] obtain x wk s' where
    "takeBuffered s = Some (Some x, wk, s')" "chan_inv s'" by blast
  then show ?thesis by (simp add: tryReceive_def)
next
  case False
  then have tb: "takeBuffered s = None" by (simp add: takeBuffered_None)
  show ?thesis
  proof (cases "takeFromSender s")
    case (Some a)
    then obtain x wk s' where a: "takeFromSender s = Some (x, wk, s')" by (cases a) auto
    then have "chan_inv s'" using assms False chan_inv_takeFromSender by fastforce
    then show ?thesis using tb a by (simp add: tryReceive_def)
  next
    case None
    then show ?thesis
      using assms tb by (simp add: tryReceive_def)
  qed
qed

lemma chan_inv_close:
  assumes "chan_inv s"
  shows "chan_inv (snd (close s))"
  using assms by (simp add: close_def chan_inv_def)

lemma chan_inv_next: "chan_inv s \<Longrightarrow> chan_inv (chan_next op s)"
  by (cases op)
     (simp_all add: chan_next_def split_beta chan_inv_send chan_inv_receive
        chan_inv_trySend chan_inv_tryReceive chan_inv_close)

lemma chan_inv_run: "chan_inv s \<Longrightarrow> chan_inv (chan_run ops s)"
  by (induction ops arbitrary: s) (simp_all add: chan_inv_next)

section \<open>Channel: the state invariant\<close>

lemma processSendWaiters_fields:
  "(case processSendWaiters s of (wk, s') \<Rightarrow>
      wk = map (\<lambda>(v, p). ResolveSend p) (take (room s) (sendWaiters s)) \<and>
      sendWaiters s' = drop (room s) (sendWaiters s) \<and>
      count s' = count s + room s \<and>
      capacity s' = capacity s \<and> closed s' = closed s \<and>
      receiveWaiters s' = receiveWaiters s)"
proof (induction s rule: processSendWaiters.induct)
  case (1 s)
  show ?case
  proof (cases "count s < capacity s \<and> 0 < length (sendWaiters s)")
    case False
    then have "room s = 0" by (auto simp: room_def)
    with False show ?thesis
      by (subst processSendWaiters.simps) simp
  next
    case True
    then obtain v p rest where sw: "sendWaiters s = (v, p) # rest"
      by (cases "sendWaiters s") auto
    let ?s1 = "writeTail v (s\<lparr> sendWaiters := rest \<rparr>)"
    have room: "room s = Suc (room ?s1)"
      using True sw by (simp add: room_def)
    obtain wk s' where ps: "processSendWaiters ?s1 = (wk, s')"
      by (cases "processSendWaiters ?s1")
    have ih: "wk = map (\<lambda>(v, p). ResolveSend p) (take (room ?s1) rest) \<and>
      sendWaiters s' = drop (room ?s1) rest \<and>
      count s' = count ?s1 + room ?s1 \<and>
      capacity s' = capacity s \<and> closed s' = closed s \<and>
      receiveWaiters s' = receiveWaiters s"
      using "1.IH"[OF True sw refl] ps by simp
    have "processSendWaiters s = (ResolveSend p # wk, s')"
      using True sw ps by (subst processSendWaiters.simps) simp
    then show ?thesis
      using ih sw room by simp
  qed
qed

lemma room_le: "count s \<le> capacity s \<Longrightarrow> count s + room s \<le> capacity s"
  by (simp add: room_def)


lemma takeBuffered_fields:
  assumes "takeBuffered s = Some (x, wk, s')"
  shows "0 < count s \<and>
      wk = map (\<lambda>(v, p). ResolveSend p) (take (room (readHead s)) (sendWaiters s)) \<and>
      sendWaiters s' = drop (room (readHead s)) (sendWaiters s) \<and>
      count s' = count s - 1 + room (readHead s) \<and>
      capacity s' = capacity s \<and> closed s' = closed s \<and>
      receiveWaiters s' = receiveWaiters s"
proof -
  have pos: "0 < count s" using assms by (simp add: takeBuffered_def split: if_splits)
  then have "processSendWaiters (readHead s) = (wk, s')"
    using assms by (simp add: takeBuffered_def split: prod.splits)
  then show ?thesis
    using processSendWaiters_fields[of "readHead s"] pos by simp
qed

lemma state_inv_takeBuffered:
  assumes "state_inv s" "takeBuffered s = Some (x, wk, s')"
  shows "state_inv s'"
proof -
  note f = takeBuffered_fields[OF assms(2)]
  have "count (readHead s) \<le> capacity (readHead s)"
    using assms(1) by (auto simp: state_inv_def)
  then have "count (readHead s) + room (readHead s) \<le> capacity (readHead s)"
    by (rule room_le)
  then have "count s' \<le> capacity s'" using f by simp
  moreover have "receiveWaiters s' = []" using f assms(1) by (simp add: state_inv_def)
  moreover have "closed s' \<longrightarrow> sendWaiters s' = []" using f assms(1) by (simp add: state_inv_def)
  ultimately show ?thesis by (simp add: state_inv_def)
qed

lemma state_inv_takeFromSender:
  assumes "state_inv s" "takeFromSender s = Some (x, wk, s')"
  shows "state_inv s'"
  using assms by (auto simp: takeFromSender_def state_inv_def split: list.splits)

lemma state_inv_receive: "state_inv s \<Longrightarrow> state_inv (snd (snd (receive p s)))"
  by (auto simp: receive_def split: option.splits
      dest: state_inv_takeBuffered state_inv_takeFromSender)
     (auto simp: state_inv_def takeBuffered_def split: if_splits)

lemma state_inv_tryReceive: "state_inv s \<Longrightarrow> state_inv (snd (snd (tryReceive s)))"
  by (auto simp: tryReceive_def split: option.splits
      dest: state_inv_takeBuffered state_inv_takeFromSender)

lemma state_inv_send: "state_inv s \<Longrightarrow> state_inv (snd (snd (send p v s)))"
  by (auto simp: send_def handOff_def addToBuffer_def state_inv_def
      split: option.splits list.splits if_splits)

lemma state_inv_trySend: "state_inv s \<Longrightarrow> state_inv (snd (snd (trySend v s)))"
  by (auto simp: trySend_def handOff_def addToBuffer_def state_inv_def
      split: option.splits list.splits if_splits)

lemma state_inv_close: "state_inv s \<Longrightarrow> state_inv (snd (close s))"
  by (simp add: close_def state_inv_def)

lemma state_inv_next: "state_inv s \<Longrightarrow> state_inv (chan_next op s)"
  by (cases op)
     (simp_all add: chan_next_def split_beta state_inv_send state_inv_receive
        state_inv_trySend state_inv_tryReceive state_inv_close)

lemma state_inv_run: "state_inv s \<Longrightarrow> state_inv (chan_run ops s)"
  by (induction ops arbitrary: s) (simp_all add: state_inv_next)

lemma state_inv_newChannel: "newChannel c = Inr s \<Longrightarrow> state_inv s"
  by (auto simp: newChannel_def state_inv_def split: if_splits)

lemma closed_takeBuffered:
  assumes "closed s" "sendWaiters s = []" "takeBuffered s = Some (x, wk, s')"
  shows "wk = [] \<and> closed s' \<and> count s' < count s \<and> sendWaiters s' = []"
  using takeBuffered_fields[OF assms(3)] assms(1,2) by (simp add: room_def)

lemma closed_step:
  assumes "closed s" "sendWaiters s = []"
  shows "fst (snd (chan_step op s)) = [] \<and> closed (chan_next op s) \<and>
         count (chan_next op s) \<le> count s \<and> sendWaiters (chan_next op s) = []"
proof (cases op)
  case (Send p v)
  then show ?thesis using assms by (simp add: chan_next_def send_def)
next
  case (Receive p)
  show ?thesis
  proof (cases "takeBuffered s")
    case None
    then show ?thesis using assms Receive
      by (simp add: chan_next_def receive_def takeFromSender_def)
  next
    case (Some a)
    then obtain x wk s' where a: "takeBuffered s = Some (x, wk, s')" by (cases a) auto
    from closed_takeBuffered[OF assms a] show ?thesis
      using Receive a by (simp add: chan_next_def receive_def)
  qed
next
  case (TrySend v)
  then show ?thesis using assms by (simp add: chan_next_def trySend_def)
next
  case TryReceive
  show ?thesis
  proof (cases "takeBuffered s")
    case None
    then show ?thesis using assms TryReceive
      by (simp add: chan_next_def tryReceive_def takeFromSender_def)
  next
    case (Some a)
    then obtain x wk s' where a: "takeBuffered s = Some (x, wk, s')" by (cases a) auto
    from closed_takeBuffered[OF assms a] show ?thesis
      using TryReceive a by (simp add: chan_next_def tryReceive_def)
  qed
next
  case Close
  then show ?thesis using assms by (simp add: chan_next_def close_def)
qed

text \<open>
  C4. Every channel operation (\<open>send\<close>, \<open>receive\<close>, \<open>trySend\<close>, \<open>tryReceive\<close>, \<open>close\<close>)
  preserves the state invariant: the count stays between 0 and the capacity, and buffered
  values and waiting receivers are never both present. So every state reached from a new
  channel satisfies it. Once the channel is closed, \<open>send\<close> throws and \<open>trySend\<close> returns
  \<open>false\<close>, both leaving the state as it is, and no operation resolves a sender or a
  receiver with a value, adds to the buffer, reopens the channel or queues a sender.
\<close>

theorem channel_state_invariants:
  "(newChannel c = Inr s0 \<longrightarrow> state_inv (chan_run ops s0)) \<and>
   (state_inv s \<longrightarrow> state_inv (chan_next op s)) \<and>
   (state_inv s \<and> closed s \<longrightarrow>
      send p v s = (SendThrows SendOnClosed, [], s) \<and>
      trySend v s = (False, [], s) \<and>
      fst (snd (chan_step op s)) = [] \<and>
      closed (chan_next op s) \<and>
      count (chan_next op s) \<le> count s \<and>
      sendWaiters (chan_next op s) = [])"
proof (intro conjI impI)
  assume "newChannel c = Inr s0"
  then show "state_inv (chan_run ops s0)"
    by (intro state_inv_run state_inv_newChannel)
next
  assume "state_inv s"
  then show "state_inv (chan_next op s)" by (rule state_inv_next)
next
  assume a: "state_inv s \<and> closed s"
  then have sw: "sendWaiters s = []" by (simp add: state_inv_def)
  show "send p v s = (SendThrows SendOnClosed, [], s)" using a by (simp add: send_def)
  show "trySend v s = (False, [], s)" using a by (simp add: trySend_def)
  from closed_step[OF _ sw, of op] a
  show "fst (snd (chan_step op s)) = []" "closed (chan_next op s)"
    "count (chan_next op s) \<le> count s" "sendWaiters (chan_next op s) = []"
    by simp_all
qed

theorem channel_state_invariants_witness:
  "newChannel 1 = Inr (\<lparr> buffer = [None], capacity = 1, head = 0, tail = 0, count = 0,
      closed = False, sendWaiters = [], receiveWaiters = [] \<rparr> :: nat channel) \<and>
   state_inv (\<lparr> buffer = [Some 5], capacity = 1, head = 0, tail = 0, count = 1,
      closed = True, sendWaiters = [], receiveWaiters = [] \<rparr> :: nat channel) \<and>
   closed (\<lparr> buffer = [Some 5], capacity = 1, head = 0, tail = 0, count = 1,
      closed = True, sendWaiters = [], receiveWaiters = [] \<rparr> :: nat channel) \<and>
   state_inv (chan_run [TrySend 5, Close] (\<lparr> buffer = [None], capacity = 1, head = 0, tail = 0, count = 0,
      closed = False, sendWaiters = [], receiveWaiters = [] \<rparr> :: nat channel)) \<and>
   state_inv (chan_next (Receive 3) (\<lparr> buffer = [Some 5], capacity = 1, head = 0, tail = 0, count = 1,
      closed = True, sendWaiters = [], receiveWaiters = [] \<rparr> :: nat channel)) \<and>
   send 4 6 (\<lparr> buffer = [Some 5], capacity = 1, head = 0, tail = 0, count = 1,
      closed = True, sendWaiters = [], receiveWaiters = [] \<rparr> :: nat channel) =
     (SendThrows SendOnClosed, [], \<lparr> buffer = [Some 5], capacity = 1, head = 0, tail = 0, count = 1,
      closed = True, sendWaiters = [], receiveWaiters = [] \<rparr>)"
proof -
  let ?a = "\<lparr> buffer = [None], capacity = 1, head = 0, tail = 0, count = 0,
      closed = False, sendWaiters = [], receiveWaiters = [] \<rparr> :: nat channel"
  let ?b = "\<lparr> buffer = [Some 5], capacity = 1, head = 0, tail = 0, count = 1,
      closed = True, sendWaiters = [], receiveWaiters = [] \<rparr> :: nat channel"
  have h1: "newChannel 1 = Inr ?a" by (simp add: newChannel_def del: One_nat_def)
  have h2: "state_inv ?b" by (simp add: state_inv_def)
  have h3: "closed ?b" by simp
  show ?thesis
    using h1 h2 h3 channel_state_invariants[of 1 ?a "[TrySend 5, Close]" ?b "Receive 3" 4 6]
    by simp
qed

section \<open>Channel: buffered values, close and rendezvous\<close>

lemma length_contents [simp]: "length (contents s) = count s"
  by (simp add: contents_def)

lemma receive_buffered:
  assumes "chan_inv s" "0 < count s" "sendWaiters s = []"
  shows "\<exists>x s'. receive p s = (ReceiveReturns (Some x) True, [], s') \<and>
           contents s = Some x # contents s' \<and> chan_inv s' \<and> closed s' = closed s \<and>
           sendWaiters s' = [] \<and> receiveWaiters s' = [] \<and> capacity s' = capacity s"
proof -
  from takeBuffered_spec[OF assms(1,2)] obtain x wk s' where
    t: "takeBuffered s = Some (Some x, wk, s')"
    and c: "contents s = Some x # contents (readHead s)"
    and rest: "wk = map (\<lambda>(v, p). ResolveSend p) (take 1 (sendWaiters s))"
      "contents s' = contents (readHead s) @ map (\<lambda>(v, p). Some v) (take 1 (sendWaiters s))"
      "sendWaiters s' = drop 1 (sendWaiters s)" "receiveWaiters s' = []"
      "capacity s' = capacity s" "closed s' = closed s" "chan_inv s'"
    by blast
  have "receive p s = (ReceiveReturns (Some x) True, [], s')"
    using t rest(1) assms(3) by (simp add: receive_def)
  then show ?thesis using c rest assms(3) by simp
qed

lemma receive_drained:
  assumes "closed s" "count s = 0" "sendWaiters s = []"
  shows "receive p s = (ReceiveReturns None False, [], s)"
  using assms by (simp add: receive_def takeBuffered_def takeFromSender_def)

lemma receive_many_buffered:
  "chan_inv s \<Longrightarrow> sendWaiters s = [] \<Longrightarrow> length ps \<le> count s \<Longrightarrow>
   \<exists>s'. receive_many ps s =
          (map (\<lambda>x. (ReceiveReturns x True, [])) (take (length ps) (contents s)), s') \<and>
        contents s' = drop (length ps) (contents s) \<and> chan_inv s' \<and>
        closed s' = closed s \<and> sendWaiters s' = [] \<and> capacity s' = capacity s"
proof (induction ps arbitrary: s)
  case Nil
  then show ?case by simp
next
  case (Cons p ps)
  then have pos: "0 < count s" by simp
  from receive_buffered[OF Cons.prems(1) pos Cons.prems(2), of p] obtain x s1 where
    r: "receive p s = (ReceiveReturns (Some x) True, [], s1)"
    and c: "contents s = Some x # contents s1"
    and i: "chan_inv s1" "closed s1 = closed s" "sendWaiters s1 = []" "capacity s1 = capacity s"
    by blast
  have "length (contents s) = Suc (length (contents s1))" using c by simp
  then have len: "length ps \<le> count s1" using Cons.prems(3) by simp
  from Cons.IH[OF i(1) i(3) len] obtain s' where
    m: "receive_many ps s1 =
          (map (\<lambda>x. (ReceiveReturns x True, [])) (take (length ps) (contents s1)), s')"
    and r': "contents s' = drop (length ps) (contents s1)" "chan_inv s'"
        "closed s' = closed s1" "sendWaiters s' = []" "capacity s' = capacity s1"
    by blast
  show ?case using r m r' c i by simp
qed

lemma close_spec:
  "close s = (if closed s then ([], s)
      else (map (\<lambda>w. ResolveReceive w None False) (receiveWaiters s),
            s\<lparr> closed := True, sendWaiters := [], receiveWaiters := [] \<rparr>))"
  by (simp add: close_def)

lemma close_contents:
  assumes "chan_inv s"
  shows "fst (close s) = map (\<lambda>w. ResolveReceive w None False) (receiveWaiters s)"
    and "contents (snd (close s)) = contents s"
    and "closed (snd (close s))" and "sendWaiters (snd (close s)) = []"
    and "receiveWaiters (snd (close s)) = []"
  using assms by (auto simp: close_def chan_inv_def)

lemma close_then_drain:
  assumes "newChannel c = Inr s0" and "s = chan_run ops s0" and "length ps = count s"
  shows "\<exists>s1 s2. close s = (map (\<lambda>w. ResolveReceive w None False) (receiveWaiters s), s1) \<and>
           None \<notin> set (contents s) \<and>
           (\<forall>n \<le> count s. fst (receive_many (take n ps) s1) =
               map (\<lambda>x. (ReceiveReturns x True, [])) (take n (contents s))) \<and>
           receive_many ps s1 = (map (\<lambda>x. (ReceiveReturns x True, [])) (contents s), s2) \<and>
           (\<forall>p. receive p s2 = (ReceiveReturns None False, [], s2))"
proof -
  have inv: "chan_inv s" using assms(1,2) by (simp add: chan_inv_run chan_inv_newChannel)
  obtain wk s1 where cl: "close s = (wk, s1)" by (cases "close s")
  have wk: "wk = map (\<lambda>w. ResolveReceive w None False) (receiveWaiters s)"
    and c1: "contents s1 = contents s" and cl1: "closed s1" and sw1: "sendWaiters s1 = []"
    using close_contents[OF inv] cl by simp_all
  have i1: "chan_inv s1" using chan_inv_close[OF inv] cl by simp
  have cnt: "count s1 = count s" using c1 by (metis length_contents)
  have part: "fst (receive_many (take n ps) s1) =
               map (\<lambda>x. (ReceiveReturns x True, [])) (take n (contents s))" if "n \<le> count s" for n
  proof -
    have "length (take n ps) \<le> count s1" using that cnt assms(3) by simp
    from receive_many_buffered[OF i1 sw1 this] show ?thesis
      using that assms(3) c1 by auto
  qed
  have "length ps \<le> count s1" using cnt assms(3) by simp
  from receive_many_buffered[OF i1 sw1 this] obtain s2 where
    m: "receive_many ps s1 = (map (\<lambda>x. (ReceiveReturns x True, [])) (take (length ps) (contents s1)), s2)"
    and r: "contents s2 = drop (length ps) (contents s1)" "chan_inv s2" "closed s2 = closed s1"
       "sendWaiters s2 = []"
    by blast
  have "contents s2 = []" using r(1) cnt assms(3) by simp
  then have "count s2 = 0" by (metis length_contents list.size(3))
  then have dr: "\<forall>p. receive p s2 = (ReceiveReturns None False, [], s2)"
    using receive_drained r cl1 by auto
  have "None \<notin> set (contents s)" using inv by (simp add: chan_inv_def ring_inv_def)
  then show ?thesis using cl wk m c1 cnt assms(3) dr part by auto
qed

lemma remove_all_in_order: "foldl (\<lambda>b q. remove1 q b) xs xs = []"
  by (induction xs) simp_all

lemma resolvedReceivers_close:
  "resolvedReceivers (map (\<lambda>w. ResolveReceive w None False) ws) = ws"
  by (induction ws) (simp_all add: resolvedReceivers_def)

lemma resolvedReceivers_senders:
  "resolvedReceivers (map (\<lambda>(v, p). ResolveSend p) ws) = []"
  by (induction ws) (auto simp: resolvedReceivers_def)

lemma takeBuffered_receivers:
  assumes "takeBuffered s = Some (x, wk, s')"
  shows "resolvedReceivers wk = [] \<and> receiveWaiters s' = receiveWaiters s"
  using takeBuffered_fields[OF assms] by (simp add: resolvedReceivers_senders)

lemma takeFromSender_receivers:
  assumes "takeFromSender s = Some (x, wk, s')"
  shows "resolvedReceivers wk = [] \<and> receiveWaiters s' = receiveWaiters s"
  using assms by (auto simp: takeFromSender_def resolvedReceivers_def split: list.splits)

lemma receiveWaiters_step:
  "chan_step op s = (r, wk, s') \<Longrightarrow> receiveWaiters s' = stillBlocked (receiveWaiters s) op r wk"
proof (cases op)
  case (Send p v)
  assume "chan_step op s = (r, wk, s')"
  then show ?thesis using Send
    by (auto simp: send_def handOff_def addToBuffer_def stillBlocked_def resolvedReceivers_def
        suspendedReceiver_def split: if_splits list.splits)
next
  case (Receive p)
  assume a: "chan_step op s = (r, wk, s')"
  show ?thesis
  proof (cases "takeBuffered s")
    case (Some t)
    then obtain x wk1 s1 where t: "takeBuffered s = Some (x, wk1, s1)" by (cases t) auto
    from takeBuffered_receivers[OF t] a Receive t show ?thesis
      by (auto simp: receive_def stillBlocked_def suspendedReceiver_def)
  next
    case None
    show ?thesis
    proof (cases "takeFromSender s")
      case (Some t)
      then obtain x wk1 s1 where t: "takeFromSender s = Some (x, wk1, s1)" by (cases t) auto
      from takeFromSender_receivers[OF t] a Receive t None show ?thesis
        by (auto simp: receive_def stillBlocked_def suspendedReceiver_def)
    next
      case n: None
      then show ?thesis using a Receive None
        by (auto simp: receive_def stillBlocked_def suspendedReceiver_def resolvedReceivers_def
            split: if_splits)
    qed
  qed
next
  case (TrySend v)
  assume "chan_step op s = (r, wk, s')"
  then show ?thesis using TrySend
    by (auto simp: trySend_def handOff_def addToBuffer_def stillBlocked_def resolvedReceivers_def
        suspendedReceiver_def split: if_splits list.splits)
next
  case TryReceive
  assume a: "chan_step op s = (r, wk, s')"
  show ?thesis
  proof (cases "takeBuffered s")
    case (Some t)
    then obtain x wk1 s1 where t: "takeBuffered s = Some (x, wk1, s1)" by (cases t) auto
    from takeBuffered_receivers[OF t] a TryReceive t show ?thesis
      by (auto simp: tryReceive_def stillBlocked_def suspendedReceiver_def)
  next
    case None
    show ?thesis
    proof (cases "takeFromSender s")
      case (Some t)
      then obtain x wk1 s1 where t: "takeFromSender s = Some (x, wk1, s1)" by (cases t) auto
      from takeFromSender_receivers[OF t] a TryReceive t None show ?thesis
        by (auto simp: tryReceive_def stillBlocked_def suspendedReceiver_def)
    next
      case n: None
      then show ?thesis using a TryReceive None
        by (auto simp: tryReceive_def stillBlocked_def suspendedReceiver_def resolvedReceivers_def)
    qed
  qed
next
  case Close
  assume "chan_step op s = (r, wk, s')"
  then show ?thesis using Close
    by (auto simp: close_def stillBlocked_def suspendedReceiver_def resolvedReceivers_close
        remove_all_in_order split: if_splits)
       (simp add: resolvedReceivers_def)
qed

lemma blockedReceivers_run:
  "blockedReceivers (receiveWaiters s) ops s = (blocked, s') \<Longrightarrow>
   s' = chan_run ops s \<and> blocked = receiveWaiters s'"
proof (induction ops arbitrary: s)
  case Nil
  then show ?case by auto
next
  case (Cons op ops)
  obtain r wk s1 where st: "chan_step op s = (r, wk, s1)" by (cases "chan_step op s")
  have w: "receiveWaiters s1 = stillBlocked (receiveWaiters s) op r wk"
    using st by (rule receiveWaiters_step)
  have "blockedReceivers (receiveWaiters s1) ops s1 = (blocked, s')"
    using Cons.prems st w by simp
  from Cons.IH[OF this] show ?case using st by (simp add: chan_next_def)
qed

lemma blockedReceivers_new:
  assumes "newChannel c = Inr s0" "blockedReceivers [] ops s0 = (blocked, s)"
  shows "s = chan_run ops s0 \<and> blocked = receiveWaiters s"
proof -
  have "receiveWaiters s0 = []" using assms(1) by (auto simp: newChannel_def split: if_splits)
  then show ?thesis using blockedReceivers_run[of s0 ops blocked s] assms(2) by simp
qed

text \<open>
  C5. On every channel reached from a new one by any run of calls, \<open>close()\<close> resolves
  every receiver that is blocked at that moment (its \<open>receive\<close> suspended and nobody has
  resolved it since) with \<open>[undefined, false]\<close>, in the order in which they suspended, and
  the values buffered before the close stay receivable: the following receives return them
  with \<open>ok = true\<close>, oldest first, resolving nobody, until the buffer is drained; every
  receive after that returns \<open>[undefined, false]\<close> at once.
\<close>

theorem close_wakes_receivers_and_keeps_buffer:
  assumes "newChannel c = Inr s0" and "blockedReceivers [] ops s0 = (blocked, s)"
    and "length ps = count s"
  shows "\<exists>s1 s2. close s = (map (\<lambda>w. ResolveReceive w None False) blocked, s1) \<and>
           None \<notin> set (contents s) \<and>
           (\<forall>n \<le> count s. fst (receive_many (take n ps) s1) =
               map (\<lambda>x. (ReceiveReturns x True, [])) (take n (contents s))) \<and>
           receive_many ps s1 = (map (\<lambda>x. (ReceiveReturns x True, [])) (contents s), s2) \<and>
           (\<forall>p. receive p s2 = (ReceiveReturns None False, [], s2))"
proof -
  from blockedReceivers_new[OF assms(1,2)]
  have s: "s = chan_run ops s0" and b: "blocked = receiveWaiters s" by simp_all
  from close_then_drain[OF assms(1) s assms(3)] show ?thesis
    unfolding b .
qed

theorem close_wakes_receivers_and_keeps_buffer_witness:
  "newChannel 2 = Inr (\<lparr> buffer = [None, None], capacity = 2, head = 0, tail = 0, count = 0,
      closed = False, sendWaiters = [], receiveWaiters = [] \<rparr> :: nat channel) \<and>
   blockedReceivers [] [Receive 1, Receive 2, Receive 3, TrySend 9]
     (\<lparr> buffer = [None, None], capacity = 2, head = 0, tail = 0, count = 0,
      closed = False, sendWaiters = [], receiveWaiters = [] \<rparr> :: nat channel) =
     ([2, 3], \<lparr> buffer = [None, None], capacity = 2, head = 0, tail = 0, count = 0,
      closed = False, sendWaiters = [], receiveWaiters = [2, 3] \<rparr>) \<and>
   fst (close (\<lparr> buffer = [None, None], capacity = 2, head = 0, tail = 0, count = 0,
      closed = False, sendWaiters = [], receiveWaiters = [2, 3] \<rparr> :: nat channel)) =
     [ResolveReceive 2 None False, ResolveReceive 3 None False] \<and>
   blockedReceivers [] [TrySend 7, TrySend 8]
     (\<lparr> buffer = [None, None], capacity = 2, head = 0, tail = 0, count = 0,
      closed = False, sendWaiters = [], receiveWaiters = [] \<rparr> :: nat channel) =
     ([], \<lparr> buffer = [Some 7, Some 8], capacity = 2, head = 0, tail = 0, count = 2,
      closed = False, sendWaiters = [], receiveWaiters = [] \<rparr>) \<and>
   fst (receive_many [1, 2] (snd (close
     (\<lparr> buffer = [Some 7, Some 8], capacity = 2, head = 0, tail = 0, count = 2,
      closed = False, sendWaiters = [], receiveWaiters = [] \<rparr> :: nat channel)))) =
     [(ReceiveReturns (Some 7) True, []), (ReceiveReturns (Some 8) True, [])]"
proof -
  let ?a = "\<lparr> buffer = [None, None], capacity = 2, head = 0, tail = 0, count = 0,
      closed = False, sendWaiters = [], receiveWaiters = [] \<rparr> :: nat channel"
  let ?b = "\<lparr> buffer = [None, None], capacity = 2, head = 0, tail = 0, count = 0,
      closed = False, sendWaiters = [], receiveWaiters = [2, 3] \<rparr> :: nat channel"
  let ?c = "\<lparr> buffer = [Some 7, Some 8], capacity = 2, head = 0, tail = 0, count = 2,
      closed = False, sendWaiters = [], receiveWaiters = [] \<rparr> :: nat channel"
  have h1: "newChannel 2 = Inr ?a" by (simp add: newChannel_def numeral_2_eq_2)
  have h2: "blockedReceivers [] [Receive 1, Receive 2, Receive 3, TrySend 9] ?a = ([2, 3], ?b)"
    by code_simp
  have h3: "length ([] :: pid list) = count ?b" by simp
  have h4: "blockedReceivers [] [TrySend 7, TrySend 8] ?a = ([], ?c)"
    by code_simp
  have h5: "length [1, 2 :: pid] = count ?c" by simp
  have c: "contents ?c = [Some 7, Some 8]" by code_simp
  from close_wakes_receivers_and_keeps_buffer[OF h1 h2 h3] obtain s1 where
    "close ?b = (map (\<lambda>w. ResolveReceive w None False) [2, 3], s1)"
    by blast
  then have w1: "fst (close ?b) = [ResolveReceive 2 None False, ResolveReceive 3 None False]"
    by simp
  from close_wakes_receivers_and_keeps_buffer[OF h1 h4 h5] obtain s1 s2 where
    "close ?c = (map (\<lambda>w. ResolveReceive w None False) [], s1)"
    "receive_many [1, 2] s1 = (map (\<lambda>x. (ReceiveReturns x True, [])) (contents ?c), s2)"
    by blast
  then have w2: "fst (receive_many [1, 2] (snd (close ?c))) =
     [(ReceiveReturns (Some 7) True, []), (ReceiveReturns (Some 8) True, [])]"
    using c by simp
  show ?thesis
    by (intro conjI h1 h2 w1 h4 w2)
qed

lemma trySend_buffers:
  assumes "chan_inv s" "\<not> closed s" "receiveWaiters s = []" "count s < capacity s"
  shows "\<exists>s'. trySend v s = (True, [], s') \<and> contents s' = contents s @ [Some v] \<and>
           chan_inv s' \<and> \<not> closed s' \<and> receiveWaiters s' = [] \<and> sendWaiters s' = [] \<and>
           capacity s' = capacity s"
proof -
  have r: "ring_inv s" and sw: "sendWaiters s = []"
    using assms by (auto simp: chan_inv_def)
  have t: "trySend v s = (True, [], writeTail v s)"
    using assms by (simp add: trySend_def handOff_def addToBuffer_def)
  have "chan_inv (snd (snd (trySend v s)))" using assms(1) by (rule chan_inv_trySend)
  then have "chan_inv (writeTail v s)" using t by simp
  moreover have "contents (writeTail v s) = contents s @ [Some v]"
    using r assms(4) by (rule contents_writeTail)
  ultimately show ?thesis using t assms sw by simp
qed

lemma trySend_full:
  assumes "receiveWaiters s = []" "count s = capacity s"
  shows "trySend v s = (False, [], s)"
  using assms by (simp add: trySend_def handOff_def addToBuffer_def)

lemma trySend_many_buffers:
  "chan_inv s \<Longrightarrow> \<not> closed s \<Longrightarrow> receiveWaiters s = [] \<Longrightarrow> sendWaiters s = [] \<Longrightarrow>
   count s + length vs \<le> capacity s \<Longrightarrow>
   \<exists>s'. trySend_many vs s = (map (\<lambda>v. (True, [])) vs, s') \<and>
        contents s' = contents s @ map Some vs \<and> chan_inv s' \<and> \<not> closed s' \<and>
        receiveWaiters s' = [] \<and> sendWaiters s' = [] \<and> capacity s' = capacity s"
proof (induction vs arbitrary: s)
  case Nil
  then show ?case by (auto simp: chan_inv_def)
next
  case (Cons v vs)
  then have lt: "count s < capacity s" by simp
  from trySend_buffers[OF Cons.prems(1,2,3) lt, of v] obtain s1 where
    t: "trySend v s = (True, [], s1)" and c: "contents s1 = contents s @ [Some v]"
    and i: "chan_inv s1" "\<not> closed s1" "receiveWaiters s1 = []" "sendWaiters s1 = []"
       "capacity s1 = capacity s"
    by blast
  have "length (contents s1) = Suc (length (contents s))" using c by simp
  then have "count s1 + length vs \<le> capacity s1" using Cons.prems(5) i(5) by simp
  from Cons.IH[OF i(1,2,3,4) this] obtain s' where
    "trySend_many vs s1 = (map (\<lambda>v. (True, [])) vs, s')"
    "contents s' = contents s1 @ map Some vs" "chan_inv s'" "\<not> closed s'"
    "receiveWaiters s' = []" "sendWaiters s' = []" "capacity s' = capacity s1"
    by blast
  then show ?case using t c i by simp
qed

text \<open>
  C6. On a channel of capacity \<open>C > 0\<close> that is open and empty with no receiver waiting
  (as every new channel is), \<open>C\<close> calls of \<open>trySend\<close> in a row all return \<open>true\<close>, one
  more returns \<open>false\<close> and changes nothing, and a \<open>receive\<close> then returns at once with
  the first value sent and \<open>ok = true\<close>.
\<close>

theorem buffered_trySend_fills_then_fails:
  assumes "newChannel c = Inr s0" and "s = chan_run ops s0"
    and "\<not> closed s" and "count s = 0" and "receiveWaiters s = []"
    and "0 < capacity s" and "length vs = capacity s"
  shows "\<exists>s1 s2. trySend_many vs s = (map (\<lambda>v. (True, [])) vs, s1) \<and>
           trySend x s1 = (False, [], s1) \<and>
           receive p s1 = (ReceiveReturns (Some (hd vs)) True, [], s2)"
proof -
  have inv: "chan_inv s" using assms(1,2) by (simp add: chan_inv_run chan_inv_newChannel)
  have sw: "sendWaiters s = []" using inv assms(4,6) by (auto simp: chan_inv_def)
  have "count s + length vs \<le> capacity s" using assms by simp
  from trySend_many_buffers[OF inv assms(3,5) sw this] obtain s1 where
    m: "trySend_many vs s = (map (\<lambda>v. (True, [])) vs, s1)"
    and c: "contents s1 = contents s @ map Some vs"
    and i: "chan_inv s1" "\<not> closed s1" "receiveWaiters s1 = []" "sendWaiters s1 = []"
      "capacity s1 = capacity s"
    by blast
  have "contents s = []" using assms(4) by (simp add: contents_def)
  then have c1: "contents s1 = map Some vs" using c by simp
  then have "length (contents s1) = length vs" by simp
  then have cnt: "count s1 = capacity s1" using assms(7) i(5) by simp
  have full: "trySend x s1 = (False, [], s1)" using i(3) cnt by (rule trySend_full)
  have pos: "0 < count s1" using cnt assms(6) i(5) by simp
  from receive_buffered[OF i(1) pos i(4), of p] obtain y s2 where
    r: "receive p s1 = (ReceiveReturns (Some y) True, [], s2)" and "contents s1 = Some y # contents s2"
    by blast
  then have "map Some vs = Some y # contents s2" using c1 by simp
  then have "y = hd vs" by (cases vs) auto
  then show ?thesis using m full r by simp
qed

theorem buffered_trySend_fills_then_fails_witness:
  "\<exists>s1 s2. trySend_many [7, 8] (\<lparr> buffer = [None, None], capacity = 2, head = 0, tail = 0,
        count = 0, closed = False, sendWaiters = [], receiveWaiters = [] \<rparr> :: nat channel)
      = ([(True, []), (True, [])], s1) \<and>
     trySend 9 s1 = (False, [], s1) \<and>
     receive 1 s1 = (ReceiveReturns (Some 7) True, [], s2)"
proof -
  let ?a = "\<lparr> buffer = [None, None], capacity = 2, head = 0, tail = 0, count = 0,
      closed = False, sendWaiters = [], receiveWaiters = [] \<rparr> :: nat channel"
  have h1: "newChannel 2 = Inr ?a" by (simp add: newChannel_def numeral_2_eq_2)
  have h2: "?a = chan_run [] ?a" by simp
  show ?thesis
    using buffered_trySend_fills_then_fails[OF h1 h2, of "[7, 8]" 9 1] by simp
qed

lemma rendezvous_send:
  assumes "capacity s = 0" "\<not> closed s" "receiveWaiters s = []"
  shows "send p v s = (SendSuspends, [], s\<lparr> sendWaiters := sendWaiters s @ [(v, p)] \<rparr>)"
  using assms by (simp add: send_def handOff_def addToBuffer_def)

lemma rendezvous_trySend:
  assumes "capacity s = 0" "\<not> closed s" "receiveWaiters s = []"
  shows "trySend v s = (False, [], s)"
  using assms by (simp add: trySend_def handOff_def addToBuffer_def)

lemma rendezvous_sending_trace:
  "capacity s = 0 \<Longrightarrow> \<not> closed s \<Longrightarrow> receiveWaiters s = [] \<Longrightarrow> list_all isSending mid \<Longrightarrow>
   \<exists>rs extra. chan_trace mid s = (rs, s\<lparr> sendWaiters := sendWaiters s @ extra \<rparr>) \<and>
      list_all (\<lambda>(r, wk). wk = [] \<and> (r = SendRet SendSuspends \<or> r = TrySendRet False)) rs"
proof (induction mid arbitrary: s)
  case Nil
  have "s = s\<lparr> sendWaiters := sendWaiters s @ [] \<rparr>" by simp
  then have "\<exists>extra. s = s\<lparr> sendWaiters := sendWaiters s @ extra \<rparr>" by (rule exI)
  then show ?case by simp
next
  case (Cons op mid)
  show ?case
  proof (cases op)
    case (Send p v)
    let ?s1 = "s\<lparr> sendWaiters := sendWaiters s @ [(v, p)] \<rparr>"
    have st: "chan_step op s = (SendRet SendSuspends, [], ?s1)"
      using Send rendezvous_send[OF Cons.prems(1,2,3)] by simp
    have "capacity ?s1 = 0" "\<not> closed ?s1" "receiveWaiters ?s1 = []" "list_all isSending mid"
      using Cons.prems by simp_all
    from Cons.IH[OF this] obtain rs extra where
      "chan_trace mid ?s1 = (rs, ?s1\<lparr> sendWaiters := sendWaiters ?s1 @ extra \<rparr>)"
      "list_all (\<lambda>(r, wk). wk = [] \<and> (r = SendRet SendSuspends \<or> r = TrySendRet False)) rs"
      by blast
    then have "chan_trace (op # mid) s =
        ((SendRet SendSuspends, []) # rs, s\<lparr> sendWaiters := sendWaiters s @ ((v, p) # extra) \<rparr>) \<and>
      list_all (\<lambda>(r, wk). wk = [] \<and> (r = SendRet SendSuspends \<or> r = TrySendRet False))
        ((SendRet SendSuspends, []) # rs)"
      using st by simp
    then show ?thesis by blast
  next
    case (TrySend v)
    have st: "chan_step op s = (TrySendRet False, [], s)"
      using TrySend rendezvous_trySend[OF Cons.prems(1,2,3)] by simp
    have "list_all isSending mid" using Cons.prems by simp
    from Cons.IH[OF Cons.prems(1,2,3) this] obtain rs extra where
      "chan_trace mid s = (rs, s\<lparr> sendWaiters := sendWaiters s @ extra \<rparr>)"
      "list_all (\<lambda>(r, wk). wk = [] \<and> (r = SendRet SendSuspends \<or> r = TrySendRet False)) rs"
      by blast
    then have "chan_trace (op # mid) s =
        ((TrySendRet False, []) # rs, s\<lparr> sendWaiters := sendWaiters s @ extra \<rparr>) \<and>
      list_all (\<lambda>(r, wk). wk = [] \<and> (r = SendRet SendSuspends \<or> r = TrySendRet False))
        ((TrySendRet False, []) # rs)"
      using st by simp
    then show ?thesis by blast
  qed (use Cons.prems in \<open>simp_all add: isSending_def\<close>)
qed

lemma rendezvous_receive:
  assumes "count s = 0" "sendWaiters s = (v, p) # rest"
  shows "receive q s = (ReceiveReturns (Some v) True, [ResolveSend p], s\<lparr> sendWaiters := rest \<rparr>)"
  using assms by (simp add: receive_def takeBuffered_def takeFromSender_def)

lemma rendezvous_receive_many:
  "count s = 0 \<Longrightarrow> length ps \<le> length (sendWaiters s) \<Longrightarrow>
   receive_many ps s =
     (map (\<lambda>(v, p). (ReceiveReturns (Some v) True, [ResolveSend p])) (take (length ps) (sendWaiters s)),
      s\<lparr> sendWaiters := drop (length ps) (sendWaiters s) \<rparr>)"
proof (induction ps arbitrary: s)
  case Nil
  then show ?case by simp
next
  case (Cons q ps)
  then obtain v p rest where sw: "sendWaiters s = (v, p) # rest"
    by (cases "sendWaiters s") auto
  let ?s1 = "s\<lparr> sendWaiters := rest \<rparr>"
  have r: "receive q s = (ReceiveReturns (Some v) True, [ResolveSend p], ?s1)"
    using Cons.prems(1) sw by (rule rendezvous_receive)
  have "count ?s1 = 0" "length ps \<le> length (sendWaiters ?s1)"
    using Cons.prems sw by simp_all
  from Cons.IH[OF this] show ?case using r sw by simp
qed

text \<open>
  C7. On a channel of capacity 0 that is open with no receiver waiting, \<open>send\<close> suspends:
  it resolves nobody and only appends the sender to the queue. Further \<open>send\<close> and
  \<open>trySend\<close> calls resolve nobody either. Once the senders queued earlier have been
  served by one \<open>receive\<close> each, the next \<open>receive\<close> returns the value with \<open>ok = true\<close>
  and resolves the pending send; the count stays 0 and the buffer empty throughout.
\<close>

theorem rendezvous_send_waits_for_receive:
  assumes "newChannel c = Inr s0" and "s = chan_run ops s0"
    and "capacity s = 0" and "\<not> closed s" and "receiveWaiters s = []"
    and "list_all isSending mid" and "length ps = length (sendWaiters s)"
  shows "\<exists>rs extra s2 s3.
     send p v s = (SendSuspends, [], s\<lparr> sendWaiters := sendWaiters s @ [(v, p)] \<rparr>) \<and>
     chan_trace mid (s\<lparr> sendWaiters := sendWaiters s @ [(v, p)] \<rparr>) = (rs, s2) \<and>
     list_all (\<lambda>(r, wk). wk = []) rs \<and>
     s2 = s\<lparr> sendWaiters := sendWaiters s @ (v, p) # extra \<rparr> \<and>
     receive_many ps s2 =
       (map (\<lambda>(v, p). (ReceiveReturns (Some v) True, [ResolveSend p])) (sendWaiters s), s3) \<and>
     receive q s3 =
       (ReceiveReturns (Some v) True, [ResolveSend p], s\<lparr> sendWaiters := extra \<rparr>) \<and>
     count s = 0 \<and> buffer s = []"
proof -
  have inv: "chan_inv s" using assms(1,2) by (simp add: chan_inv_run chan_inv_newChannel)
  then have cnt: "count s = 0" and buf: "buffer s = []"
    using assms(3) by (auto simp: chan_inv_def ring_inv_def)
  let ?s1 = "s\<lparr> sendWaiters := sendWaiters s @ [(v, p)] \<rparr>"
  have snd: "send p v s = (SendSuspends, [], ?s1)"
    using assms(3,4,5) by (rule rendezvous_send)
  have "capacity ?s1 = 0" "\<not> closed ?s1" "receiveWaiters ?s1 = []"
    using assms by simp_all
  from rendezvous_sending_trace[OF this assms(6)] obtain rs extra where
    tr: "chan_trace mid ?s1 = (rs, ?s1\<lparr> sendWaiters := sendWaiters ?s1 @ extra \<rparr>)"
    and quiet: "list_all (\<lambda>(r, wk). wk = [] \<and> (r = SendRet SendSuspends \<or> r = TrySendRet False)) rs"
    by blast
  let ?s2 = "s\<lparr> sendWaiters := sendWaiters s @ (v, p) # extra \<rparr>"
  have s2: "?s1\<lparr> sendWaiters := sendWaiters ?s1 @ extra \<rparr> = ?s2" by simp
  have q: "list_all (\<lambda>(r, wk). wk = []) rs"
    using quiet by (auto simp: list_all_iff)
  let ?s3 = "s\<lparr> sendWaiters := (v, p) # extra \<rparr>"
  have "count ?s2 = 0" "length ps \<le> length (sendWaiters ?s2)"
    using cnt assms(7) by simp_all
  from rendezvous_receive_many[OF this]
  have rm: "receive_many ps ?s2 =
       (map (\<lambda>(v, p). (ReceiveReturns (Some v) True, [ResolveSend p])) (sendWaiters s), ?s3)"
    using assms(7) by simp
  have "count ?s3 = 0" "sendWaiters ?s3 = (v, p) # extra" using cnt by simp_all
  from rendezvous_receive[OF this, of q]
  have r: "receive q ?s3 = (ReceiveReturns (Some v) True, [ResolveSend p], s\<lparr> sendWaiters := extra \<rparr>)"
    by simp
  show ?thesis
    using snd tr s2 q rm r cnt buf by (intro exI[of _ rs] exI[of _ extra] exI[of _ ?s2] exI[of _ ?s3]) simp
qed

theorem rendezvous_send_waits_for_receive_witness:
  "send 1 4 (\<lparr> buffer = [], capacity = 0, head = 0, tail = 0, count = 0,
        closed = False, sendWaiters = [], receiveWaiters = [] \<rparr> :: nat channel) =
     (SendSuspends, [], \<lparr> buffer = [], capacity = 0, head = 0, tail = 0, count = 0,
        closed = False, sendWaiters = [(4, 1)], receiveWaiters = [] \<rparr>) \<and>
   (\<exists>rs extra. chan_trace [TrySend 5, Send 2 6] (\<lparr> buffer = [], capacity = 0, head = 0, tail = 0, count = 0,
        closed = False, sendWaiters = [(4, 1)], receiveWaiters = [] \<rparr> :: nat channel) =
     (rs, \<lparr> buffer = [], capacity = 0, head = 0, tail = 0, count = 0,
        closed = False, sendWaiters = (4, 1) # extra, receiveWaiters = [] \<rparr>) \<and>
     list_all (\<lambda>(r, wk). wk = []) rs \<and>
     receive 3 (\<lparr> buffer = [], capacity = 0, head = 0, tail = 0, count = 0,
        closed = False, sendWaiters = (4, 1) # extra, receiveWaiters = [] \<rparr> :: nat channel) =
     (ReceiveReturns (Some 4) True, [ResolveSend 1], \<lparr> buffer = [], capacity = 0, head = 0, tail = 0, count = 0,
        closed = False, sendWaiters = extra, receiveWaiters = [] \<rparr>))"
proof -
  let ?a = "\<lparr> buffer = [], capacity = 0, head = 0, tail = 0, count = 0,
      closed = False, sendWaiters = [], receiveWaiters = [] \<rparr> :: nat channel"
  have h1: "newChannel 0 = Inr ?a" by (simp add: newChannel_def)
  have h2: "?a = chan_run [] ?a" by simp
  have h6: "list_all isSending [TrySend (5::nat), Send 2 6]" by (simp add: isSending_def)
  have h7: "length ([] :: pid list) = length (sendWaiters ?a)" by simp
  show ?thesis
    using rendezvous_send_waits_for_receive[OF h1 h2 _ _ _ h6 h7, of 1 4 3] by simp
qed

section \<open>Channel: close with senders in the queue\<close>

text \<open>
  In a closed state without queued senders no operation resolves anybody, whatever is
  called afterwards.
\<close>

lemma closed_trace_quiet:
  "closed s \<Longrightarrow> sendWaiters s = [] \<Longrightarrow> list_all (\<lambda>(r, wk). wk = []) (fst (chan_trace ops s))"
proof (induction ops arbitrary: s)
  case Nil
  then show ?case by simp
next
  case (Cons op ops)
  from closed_step[OF Cons.prems, of op]
  have q: "fst (snd (chan_step op s)) = []" and c: "closed (chan_next op s)"
    and w: "sendWaiters (chan_next op s) = []"
    by simp_all
  from Cons.IH[OF c w] q show ?case
    by (simp add: chan_next_def split_beta)
qed

text \<open>
  C1. The claim: \<open>close()\<close> makes every queued sender's pending \<open>send\<close> fail with a Closed
  error. The code at \<open>const ch = new Channel(0); ch.send(7); ch.close()\<close>: the send
  suspends as sender 1; \<open>close\<close> resolves nobody and empties the queue, so the only
  handle on the sender's promise is gone; and no later sequence of operations resolves
  anybody. The promise stays pending for ever and the value 7 is dropped.
\<close>

theorem close_leaves_queued_sender_pending:
  "send 1 7 (\<lparr> buffer = [], capacity = 0, head = 0, tail = 0, count = 0,
        closed = False, sendWaiters = [], receiveWaiters = [] \<rparr> :: nat channel) =
     (SendSuspends, [], \<lparr> buffer = [], capacity = 0, head = 0, tail = 0, count = 0,
        closed = False, sendWaiters = [(7, 1)], receiveWaiters = [] \<rparr>) \<and>
   close (\<lparr> buffer = [], capacity = 0, head = 0, tail = 0, count = 0,
        closed = False, sendWaiters = [(7, 1)], receiveWaiters = [] \<rparr> :: nat channel) =
     ([], \<lparr> buffer = [], capacity = 0, head = 0, tail = 0, count = 0,
        closed = True, sendWaiters = [], receiveWaiters = [] \<rparr>) \<and>
   (\<forall>ops. list_all (\<lambda>(r, wk). wk = []) (fst (chan_trace ops
      (\<lparr> buffer = [], capacity = 0, head = 0, tail = 0, count = 0,
        closed = True, sendWaiters = [], receiveWaiters = [] \<rparr> :: nat channel))))"
proof (intro conjI allI)
  show "send 1 7 (\<lparr> buffer = [], capacity = 0, head = 0, tail = 0, count = 0,
        closed = False, sendWaiters = [], receiveWaiters = [] \<rparr> :: nat channel) =
     (SendSuspends, [], \<lparr> buffer = [], capacity = 0, head = 0, tail = 0, count = 0,
        closed = False, sendWaiters = [(7, 1)], receiveWaiters = [] \<rparr>)"
    by (simp add: send_def handOff_def addToBuffer_def)
  show "close (\<lparr> buffer = [], capacity = 0, head = 0, tail = 0, count = 0,
        closed = False, sendWaiters = [(7, 1)], receiveWaiters = [] \<rparr> :: nat channel) =
     ([], \<lparr> buffer = [], capacity = 0, head = 0, tail = 0, count = 0,
        closed = True, sendWaiters = [], receiveWaiters = [] \<rparr>)"
    by (simp add: close_def)
  show "list_all (\<lambda>(r, wk). wk = []) (fst (chan_trace ops
      (\<lparr> buffer = [], capacity = 0, head = 0, tail = 0, count = 0,
        closed = True, sendWaiters = [], receiveWaiters = [] \<rparr> :: nat channel)))" for ops
    by (rule closed_trace_quiet) simp_all
qed

section \<open>Select: validation and the default case\<close>

lemma classify_second_default:
  "defaultsOf cases \<noteq> [] \<Longrightarrow> classify cases rs ss (Some d) = Inl MultipleDefaultCases"
  by (induction cases rs ss "Some d" rule: classify.induct) simp_all

lemma classify_no_default:
  "defaultsOf cases = [] \<Longrightarrow>
   classify cases rs ss d = Inr (rs @ receiveCasesOf cases, ss @ sendCasesOf cases, d)"
  by (induction cases rs ss d rule: classify.induct) simp_all

lemma classify_defaults:
  "classify cases rs ss None =
     (case defaultsOf cases of
        [] \<Rightarrow> Inr (rs @ receiveCasesOf cases, ss @ sendCasesOf cases, None)
      | [d] \<Rightarrow> Inr (rs @ receiveCasesOf cases, ss @ sendCasesOf cases, Some d)
      | d # d' # ds \<Rightarrow> Inl MultipleDefaultCases)"
proof (induction cases rs ss "None :: aid option" rule: classify.induct)
  case (2 a cases receiveCases sendCases)
  show ?case
  proof (cases "defaultsOf cases")
    case Nil
    then show ?thesis by (simp add: classify_no_default)
  next
    case (Cons d ds)
    then show ?thesis by (simp add: classify_second_default)
  qed
qed (simp_all split: list.splits)

lemma set_receiveCasesOf: "(c, a) \<in> set (receiveCasesOf cases) \<longleftrightarrow> ReceiveCase c a \<in> set cases"
  by (induction cases rule: receiveCasesOf.induct) auto

lemma set_sendCasesOf: "(c, v, a) \<in> set (sendCasesOf cases) \<longleftrightarrow> SendCase c v a \<in> set cases"
  by (induction cases rule: sendCasesOf.induct) auto

lemma set_defaultsOf: "a \<in> set (defaultsOf cases) \<longleftrightarrow> DefaultCase a \<in> set cases"
  by (induction cases rule: defaultsOf.induct) auto

text \<open>
  C10. \<open>select\<close> checks its case list before it touches a channel: with no case at all
  it throws, and with more than one default case it throws, in both cases with no action
  run, no operation started, nobody resolved and every channel as before.
\<close>

theorem select_rejects_bad_case_lists:
  "select p [] st = (SelectThrows NoCases, [], st) \<and>
   (1 < length (defaultsOf cases) \<longrightarrow>
      select p cases st = (SelectThrows MultipleDefaultCases, [], st))"
proof (intro conjI impI)
  show "select p [] st = (SelectThrows NoCases, [], st)" by (simp add: select_def)
  assume m: "1 < length (defaultsOf cases)"
  then obtain d d' ds where "defaultsOf cases = d # d' # ds"
    by (cases "defaultsOf cases"; cases "tl (defaultsOf cases)") auto
  then have "classify cases [] [] None = Inl MultipleDefaultCases"
    by (simp add: classify_defaults)
  moreover have "cases \<noteq> []" using m by auto
  ultimately show "select p cases st = (SelectThrows MultipleDefaultCases, [], st)"
    by (simp add: select_def)
qed

theorem select_rejects_bad_case_lists_witness:
  "1 < length (defaultsOf [DefaultCase 1, ReceiveCase 0 2, DefaultCase 3 :: nat select_case]) \<and>
   select 10 [DefaultCase 1, ReceiveCase 0 2, DefaultCase 3]
     (\<lambda>c. \<lparr> buffer = [], capacity = 0, head = 0, tail = 0, count = 0, closed = False,
       sendWaiters = [], receiveWaiters = [] \<rparr> :: nat channel) =
     (SelectThrows MultipleDefaultCases, [],
      \<lambda>c. \<lparr> buffer = [], capacity = 0, head = 0, tail = 0, count = 0, closed = False,
       sendWaiters = [], receiveWaiters = [] \<rparr>)"
proof -
  let ?st = "\<lambda>c :: cid. \<lparr> buffer = [], capacity = 0, head = 0, tail = 0, count = 0,
       closed = False, sendWaiters = [], receiveWaiters = [] \<rparr> :: nat channel"
  have h: "1 < length (defaultsOf [DefaultCase 1, ReceiveCase 0 2, DefaultCase 3 :: nat select_case])"
    by simp
  show ?thesis
    using h select_rejects_bad_case_lists[of 10 ?st "[DefaultCase 1, ReceiveCase 0 2, DefaultCase 3]"]
    by simp
qed

text \<open>
  When \<open>select\<close>'s own tests find nothing ready (\<open>hasData()\<close> false for the channel of
  every receive case, \<open>canSend()\<close> false for the channel of every send case) and the list
  has its default case, the default action runs and nothing else happens.
\<close>

lemma select_default_when_tests_fail:
  assumes "defaultsOf cases = [d]"
    and "\<And>c a. ReceiveCase c a \<in> set cases \<Longrightarrow> \<not> hasData (st c)"
    and "\<And>c v a. SendCase c v a \<in> set cases \<Longrightarrow> \<not> canSend (st c)"
  shows "select p cases st = (RanDefault d, [], st)"
proof -
  have c: "classify cases [] [] None = Inr (receiveCasesOf cases, sendCasesOf cases, Some d)"
    using assms(1) by (simp add: classify_defaults)
  have "\<not> hasReadyOperation (receiveCasesOf cases) (sendCasesOf cases) st"
    using assms(2,3)
    by (auto simp: hasReadyOperation_def list_ex_iff set_receiveCasesOf set_sendCasesOf)
  moreover have "cases \<noteq> []" using assms(1) by auto
  ultimately show ?thesis using c by (simp add: select_def)
qed

text \<open>
  C9. The claim: with a default case present, when no receive case has data and no send
  case can send at once, the default action runs and no operation is started. The code at
  \<open>const ch = new Channel(1); ch.close(); select([send(ch, 5).then(a), default_(d)])\<close>:
  the channel is closed, so the send case cannot send (\<open>trySend\<close> returns \<open>false\<close>, \<open>send\<close>
  throws); but \<open>canSend()\<close> looks at the buffer only, not at the closed flag, and is true.
  So \<open>select\<close> skips the default action and starts the \<open>send\<close>, which throws.
\<close>

theorem select_skips_default_for_closed_channel:
  "newChannel 1 = Inr (\<lparr> buffer = [None], capacity = 1, head = 0, tail = 0, count = 0,
      closed = False, sendWaiters = [], receiveWaiters = [] \<rparr> :: nat channel) \<and>
   chan_run [Close] (\<lparr> buffer = [None], capacity = 1, head = 0, tail = 0, count = 0,
      closed = False, sendWaiters = [], receiveWaiters = [] \<rparr> :: nat channel) =
     \<lparr> buffer = [None], capacity = 1, head = 0, tail = 0, count = 0,
       closed = True, sendWaiters = [], receiveWaiters = [] \<rparr> \<and>
   trySend 5 (\<lparr> buffer = [None], capacity = 1, head = 0, tail = 0, count = 0,
      closed = True, sendWaiters = [], receiveWaiters = [] \<rparr> :: nat channel) =
     (False, [], \<lparr> buffer = [None], capacity = 1, head = 0, tail = 0, count = 0,
       closed = True, sendWaiters = [], receiveWaiters = [] \<rparr>) \<and>
   canSend (\<lparr> buffer = [None], capacity = 1, head = 0, tail = 0, count = 0,
      closed = True, sendWaiters = [], receiveWaiters = [] \<rparr> :: nat channel) \<and>
   fst (select 10 [SendCase 0 5 1, DefaultCase 2]
     (\<lambda>c. \<lparr> buffer = [None], capacity = 1, head = 0, tail = 0, count = 0,
       closed = True, sendWaiters = [], receiveWaiters = [] \<rparr> :: nat channel)) =
     Racing [StartedSend 1 (SendThrows SendOnClosed)]"
  by (simp add: newChannel_def chan_next_def close_def trySend_def canSend_def select_def
      hasReadyOperation_def send_def del: One_nat_def)

section \<open>Context: cancellation\<close>

lemma err_cancel_emptyContext [simp]:
  "cancel (Argument (Some e)) emptyContext =
     \<lparr> donePromise = Some Resolved, resolve = Some EmptyFunction, err = Some e \<rparr>"
  by (simp add: cancel_def emptyContext_def)

lemma DefaultContext_cancelled_parent:
  "err parent = Some e \<Longrightarrow>
   DefaultContext (Some parent) =
     \<lparr> child = \<lparr> donePromise = Some Resolved, resolve = Some EmptyFunction, err = Some e \<rparr>,
       parent_after = Some parent, registered = [] \<rparr>"
  by (simp add: DefaultContext_def)

text \<open>
  C3. A child derived from a parent that already has an error has that error as its own
  as soon as the derivation returns, for the constructor and for every derivation
  function; no callback has run by then, and the constructor has registered none and has
  not touched the parent.
\<close>

theorem child_adopts_cause_of_cancelled_parent:
  "err parent = Some e \<Longrightarrow>
     err (child (DefaultContext (Some parent))) = Some e \<and>
     err (child (withCancel parent)) = Some e \<and>
     err (child (withCancelCause parent)) = Some e \<and>
     err (child (withTimeout parent ms)) = Some e \<and>
     err (child (watchPromise parent)) = Some e \<and>
     err (child (watchSignal parent signal)) = Some e \<and>
     err (child (withAbort parent)) = Some e \<and>
     registered (DefaultContext (Some parent)) = [] \<and>
     parent_after (DefaultContext (Some parent)) = Some parent"
  by (simp add: DefaultContext_cancelled_parent withCancel_def withCancelCause_def
      withTimeout_def watchPromise_def watchSignal_def withAbort_def ctx_done_def onAbort_def
      cancel_def Let_def)

theorem child_adopts_cause_of_cancelled_parent_witness:
  "err (cancelFunc background) = Some ContextCancelledError \<and>
   err (child (withCancel (cancelFunc background))) = Some ContextCancelledError \<and>
   err (child (withTimeout (cancelFunc background) 50)) = Some ContextCancelledError \<and>
   err (child (watchSignal (cancelFunc background)
      \<lparr> aborted = True, abort_reason = Some (ErrorReason (OtherError ''stop'')) \<rparr>)) =
     Some ContextCancelledError"
proof -
  have h: "err (cancelFunc background) = Some ContextCancelledError"
    by (simp add: cancelFunc_def background_def DefaultContext_def emptyContext_def cancel_def)
  show ?thesis
    using h child_adopts_cause_of_cancelled_parent[OF h, of 50
        "\<lparr> aborted = True, abort_reason = Some (ErrorReason (OtherError ''stop'')) \<rparr>"]
    by simp
qed

lemma cancel_keeps_error: "err c = Some e \<Longrightarrow> cancel a c = c"
  by (simp add: cancel_def)

lemma cancels_keeps_error: "err c = Some e \<Longrightarrow> cancels as c = c"
  by (induction as) (simp_all add: cancel_keeps_error)

lemma isDone_cancel: "isDone c \<Longrightarrow> isDone (cancel a c)"
  by (auto simp: cancel_def isDone_def callResolve_def Let_def
      split: cancel_arg.splits option.splits resolver.splits)

lemma isDone_cancels: "isDone c \<Longrightarrow> isDone (cancels as c)"
  by (induction as arbitrary: c) (simp_all add: isDone_cancel)

lemma ctx_wf_emptyContext: "ctx_wf emptyContext"
  by (simp add: ctx_wf_def emptyContext_def)

lemma ctx_wf_cancel: "ctx_wf c \<Longrightarrow> ctx_wf (cancel a c) \<and> isDone (cancel a c)"
  by (auto simp: ctx_wf_def cancel_def isDone_def callResolve_def Let_def
      split: cancel_arg.splits option.splits resolver.splits)

lemma ctx_wf_done: "ctx_wf c \<Longrightarrow> ctx_wf (snd (ctx_done c))"
  by (auto simp: ctx_wf_def ctx_done_def split: option.splits resolver.splits)

lemma err_cancel_undefined: "err c = None \<Longrightarrow> err (cancel (Argument None) c) = None"
  by (auto simp: cancel_def callResolve_def Let_def split: option.splits resolver.splits)

lemma err_cancels_undefined:
  "err c = None \<Longrightarrow> list_all (\<lambda>a. a = Argument None) as \<Longrightarrow> err (cancels as c) = None"
  by (induction as arbitrary: c) (simp_all add: err_cancel_undefined)

text \<open>
  What the guard in \<open>cancel\<close> does keep: Done is for good, a cause that is a concrete
  error is never changed by any later sequence of calls, and an absent cause survives
  later calls with an explicit \<open>undefined\<close>.
\<close>

lemma cancel_after_error_or_undefined:
  "(err c = Some e \<longrightarrow> cancels as c = c) \<and>
   (ctx_wf c \<longrightarrow> isDone (cancel a c)) \<and>
   (isDone c \<longrightarrow> isDone (cancels as c)) \<and>
   (isDone c \<and> err c = None \<and> list_all (\<lambda>a. a = Argument None) as \<longrightarrow>
      err (cancels as c) = None)"
  by (simp add: cancels_keeps_error isDone_cancels err_cancels_undefined ctx_wf_cancel)

text \<open>
  C2. The claim: once a context is Done, no later \<open>cancel\<close> changes its cause; a context
  that completed cleanly keeps an absent cause. The code at
  \<open>const [ctx, cancel] = withCancelCause(background()); cancel(undefined);
  cancel(new Error("late"))\<close>: after the first call the context is Done with no cause; the
  guard of \<open>cancel\<close>, commented as making it idempotent, tests \<open>#err\<close> and not whether the
  context is Done, so the second call finds \<open>#err\<close> still \<open>undefined\<close> and stores the error.
\<close>

theorem cause_changes_after_clean_completion:
  "isDone (cancelCauseFunc None (child (withCancelCause background))) \<and>
   err (cancelCauseFunc None (child (withCancelCause background))) = None \<and>
   err (cancelCauseFunc (Some (OtherError ''late''))
         (cancelCauseFunc None (child (withCancelCause background)))) =
     Some (OtherError ''late'')"
  by (simp add: background_def withCancelCause_def DefaultContext_def emptyContext_def
      ctx_done_def cancelCauseFunc_def cancel_def callResolve_def isDone_def)

section \<open>Once: one run, one outcome\<close>

lemma follows_refl [simp]: "follows pr pr"
  by (simp add: follows_def split: once_promise.splits option.splits)
















end
